theory Spec2Isabelle
  imports Complex_Main "HOL-Library.Extended_Nat"
begin

section \<open>Track-and-Stop bandit simulator (bandit-sim.js)\<close>

text \<open>
  The embedding follows \<^verbatim>\<open>src/bandit-sim.js\<close>. JavaScript numbers are modelled as exact
  real numbers, and the properties are proved for exact arithmetic; the rounding of IEEE
  doubles is modelled separately, for the allocation and the divergence, where a property
  depends on it. The
  pull and success counters, which the program only ever increments from zero, are
  natural numbers. The two calls of \<^verbatim>\<open>Math.random()\<close> are explicit arguments of the
  functions that make them.
\<close>

subsection \<open>Configuration\<close>

definition DEFAULT_RATES :: "real list" where
  "DEFAULT_RATES = [55 / 100, 45 / 100, 72 / 100, 48 / 100]"

definition DELTA :: real where
  "DELTA = 5 / 100"

definition MAX_STEPS :: nat where
  "MAX_STEPS = 5000"

definition CHART_SAMPLE :: nat where
  "CHART_SAMPLE = 15"

subsection \<open>The Arm class\<close>

text \<open>The fields \<^verbatim>\<open>name\<close> and \<^verbatim>\<open>color\<close> are only read by the rendering code and are left out.\<close>

record arm =
  idx :: nat
  trueRate :: real
  pulls :: nat
  successes :: nat

text \<open>The constructor \<^verbatim>\<open>new Arm(idx)\<close>.\<close>

definition newArm :: "nat \<Rightarrow> arm" where
  "newArm i = \<lparr>idx = i, trueRate = DEFAULT_RATES ! i, pulls = 0, successes = 0\<rparr>"

definition mean :: "arm \<Rightarrow> real" where
  "mean a = (if pulls a = 0 then 5 / 10 else real (successes a) / real (pulls a))"

text \<open>\<^verbatim>\<open>pull()\<close>, with the value \<open>u\<close> of its \<^verbatim>\<open>Math.random()\<close> call; the boolean it returns
  is not used by any caller.\<close>

definition pull :: "real \<Rightarrow> arm \<Rightarrow> arm" where
  "pull u a =
     (let a1 = a\<lparr>pulls := pulls a + 1\<rparr>
      in if u < trueRate a1 then a1\<lparr>successes := successes a1 + 1\<rparr> else a1)"

definition reset :: "arm \<Rightarrow> arm" where
  "reset a = a\<lparr>pulls := 0, successes := 0\<rparr>"

text \<open>The data-model invariant \<open>0 \<le> successes \<le> pulls\<close>.\<close>

definition valid_arm :: "arm \<Rightarrow> bool" where
  "valid_arm a \<longleftrightarrow> successes a \<le> pulls a"

definition totalPulls :: "arm list \<Rightarrow> nat" where
  "totalPulls arms = foldl (\<lambda>s a. s + pulls a) 0 arms"

text \<open>\<^verbatim>\<open>arms.reduce((b, a, i) => a.mean > arms[b].mean ? i : b, 0)\<close>: a left fold over the
  arms paired with their indices.\<close>

definition bestArmIdx :: "arm list \<Rightarrow> nat" where
  "bestArmIdx arms =
     foldl (\<lambda>b (a, i). if mean a > mean (arms ! b) then i else b) 0
       (zip arms [0..<length arms])"

subsection \<open>Algorithm: math\<close>

text \<open>\<^verbatim>\<open>klBern\<close> in exact arithmetic: the formula of the script on real numbers, with the exact
  logarithm. The value that the script computes, with every operation rounded to a double,
  is \<open>klBern_rd binary64\<close> below; the two differ by rounding, and only the exact value is
  never negative.\<close>

definition klBern :: "real \<Rightarrow> real \<Rightarrow> real" where
  "klBern p q =
     (let p1 = max (1 / 10 ^ 9) (min (1 - 1 / 10 ^ 9) p);
          q1 = max (1 / 10 ^ 9) (min (1 - 1 / 10 ^ 9) q)
      in p1 * ln (p1 / q1) + (1 - p1) * ln ((1 - p1) / (1 - q1)))"

definition glrtStat :: "arm \<Rightarrow> arm \<Rightarrow> real" where
  "glrtStat arm_i arm_j =
     (if pulls arm_i < 1 \<or> pulls arm_j < 1 then 0
      else if mean arm_i \<le> mean arm_j then 0
      else real (pulls arm_i) * klBern (mean arm_i) (mean arm_j) +
           real (pulls arm_j) * klBern (mean arm_j) (mean arm_i))"

text \<open>The threshold formula, with the error tolerance as an argument; the program always
  evaluates it at the constant \<open>DELTA\<close>.\<close>

definition thresholdAt :: "real \<Rightarrow> real \<Rightarrow> real" where
  "thresholdAt d t = ln ((ln (t + exp 1) + 1) / d)"

definition stoppingThreshold :: "real \<Rightarrow> real" where
  "stoppingThreshold t = thresholdAt DELTA t"

subsection \<open>Algorithm: allocation (Track-and-Stop)\<close>

text \<open>\<^verbatim>\<open>Math.min(...arms.map(a => a.pulls))\<close>, which is \<^verbatim>\<open>Infinity\<close> for an empty list.\<close>

definition minPulls :: "arm list \<Rightarrow> enat" where
  "minPulls arms = foldl min \<infinity> (map (\<lambda>a. enat (pulls a)) arms)"

text \<open>The entry of the best arm in the weight array is \<^verbatim>\<open>null\<close> until it is assigned;
  JavaScript arithmetic reads \<^verbatim>\<open>null\<close> as \<open>0\<close>.\<close>

definition num :: "real option \<Rightarrow> real" where
  "num v = (case v of None \<Rightarrow> 0 | Some x \<Rightarrow> x)"

definition uniformAlloc :: "arm list \<Rightarrow> real list" where
  "uniformAlloc arms = map (\<lambda>_. 1 / real (length arms)) arms"

text \<open>The result is \<open>None\<close> where the program throws a TypeError: \<^verbatim>\<open>arms[best]\<close> is
  undefined when the list of arms is empty.\<close>

definition computeAdaptiveAlloc :: "arm list \<Rightarrow> real list option" where
  "computeAdaptiveAlloc arms =
     (let minP = minPulls arms in
      if minP < 6 then Some (uniformAlloc arms)
      else
        let best = bestArmIdx arms in
        if length arms \<le> best then None
        else
          let bestMean = mean (arms ! best);
              w = map (\<lambda>(arm, i).
                         if i = best then None
                         else let gap = max (bestMean - mean arm) (5 / 1000)
                              in Some (1 / (gap * gap)))
                      (zip arms [0..<length arms]);
              sumOthers = foldl (\<lambda>s (v, i). if i = best then s else s + num v) 0
                            (zip w [0..<length w]);
              w1 = w[best := Some (max sumOthers (1 / 100))];
              total = foldl (\<lambda>s v. s + num v) 0 w1
          in Some (map (\<lambda>v. num v / total) w1))"

text \<open>\<^verbatim>\<open>selectArm\<close>, with the draw \<open>r\<close> of its \<^verbatim>\<open>Math.random()\<close> call. The loop carries the
  running sum and the index; running off the end of the array is the fallback
  \<^verbatim>\<open>alloc.length - 1\<close>, which is \<open>-1\<close> for an empty array.\<close>

fun selectArm_loop :: "real \<Rightarrow> real \<Rightarrow> nat \<Rightarrow> real list \<Rightarrow> nat option" where
  "selectArm_loop r cum i [] = None"
| "selectArm_loop r cum i (a # rest) =
     (let cum1 = cum + a
      in if r \<le> cum1 then Some i else selectArm_loop r cum1 (Suc i) rest)"

definition selectArm :: "real \<Rightarrow> real list \<Rightarrow> int" where
  "selectArm r alloc =
     (case selectArm_loop r 0 0 alloc of
        Some i \<Rightarrow> int i
      | None \<Rightarrow> int (length alloc) - 1)"

text \<open>The allocation that \<^verbatim>\<open>simStep\<close> (and \<^verbatim>\<open>renderAllocBars\<close>) computes for the current mode.\<close>

datatype mode = Adaptive | Uniform

definition currentAlloc :: "mode \<Rightarrow> arm list \<Rightarrow> real list option" where
  "currentAlloc m arms =
     (if m = Adaptive then computeAdaptiveAlloc arms else Some (uniformAlloc arms))"

subsection \<open>Algorithm: stopping criterion\<close>

function shouldStop_loop :: "arm list \<Rightarrow> nat \<Rightarrow> real \<Rightarrow> nat \<Rightarrow> bool" where
  "shouldStop_loop arms best thresh i =
     (if i < length arms then
        (if i = best then shouldStop_loop arms best thresh (Suc i)
         else if glrtStat (arms ! best) (arms ! i) < thresh then False
         else shouldStop_loop arms best thresh (Suc i))
      else True)"
  by pat_completeness auto
termination
  by (relation "measure (\<lambda>(arms, best, thresh, i). length arms - i)") auto

declare shouldStop_loop.simps [simp del]

definition shouldStop :: "arm list \<Rightarrow> bool" where
  "shouldStop arms =
     (let t = totalPulls arms;
          minP = minPulls arms
      in if minP < 12 then False
         else
           let best = bestArmIdx arms;
               thresh = stoppingThreshold (real t)
           in shouldStop_loop arms best thresh 0)"

subsection \<open>Double-precision arithmetic\<close>

text \<open>
  JavaScript numbers are IEEE 754 binary64 values, and every arithmetic operation returns
  the exact result rounded to the nearest such value, ties to even. \<open>binary64\<close> is that
  rounding for a significand of 53 bits: \<open>expo\<close> finds the exponent \<open>e\<close> with
  \<open>2 ^ e \<le> \<bar>x\<bar>\<close> and \<open>\<bar>x\<bar> < 2 ^ (e + 1)\<close> (searching 1100 steps up or down, beyond the
  range of binary64), and \<open>rne\<close> rounds the significand, scaled to an integer of 53 bits,
  to the nearest integer, ties to even.
  Overflow and subnormal numbers are not modelled. \<open>mean_rd\<close>, \<open>bestArmIdx_rd\<close> and
  \<open>computeAdaptiveAlloc_rd\<close> are \<^verbatim>\<open>Arm.mean\<close>, \<^verbatim>\<open>bestArmIdx\<close> and \<^verbatim>\<open>computeAdaptiveAlloc\<close> with every
  arithmetic result and every decimal literal passed through a rounding function \<open>rd\<close>; at
  the identity they are the exact definitions above, at \<open>binary64\<close> they compute what the
  script computes.
\<close>

fun expo :: "nat \<Rightarrow> real \<Rightarrow> int" where
  "expo 0 x = 0"
| "expo (Suc n) x =
     (if 2 \<le> x then expo n (x / 2) + 1
      else if x < 1 then expo n (2 * x) - 1
      else 0)"

definition rne :: "real \<Rightarrow> int" where
  "rne y =
     (let f = \<lfloor>y\<rfloor>; r = y - of_int f
      in if r < 1 / 2 then f
         else if 1 / 2 < r then f + 1
         else if even f then f else f + 1)"

definition scale2 :: "real \<Rightarrow> int \<Rightarrow> real" where
  "scale2 x n = (if 0 \<le> n then x * 2 ^ nat n else x / 2 ^ nat (- n))"

definition binary64 :: "real \<Rightarrow> real" where
  "binary64 x =
     (if x = 0 then 0
      else
        let e = expo 1100 \<bar>x\<bar>;
            k = rne (scale2 \<bar>x\<bar> (52 - e))
        in sgn x * scale2 (of_int k) (e - 52))"

definition mean_rd :: "(real \<Rightarrow> real) \<Rightarrow> arm \<Rightarrow> real" where
  "mean_rd rd a = (if pulls a = 0 then 5 / 10 else rd (real (successes a) / real (pulls a)))"

definition bestArmIdx_rd :: "(real \<Rightarrow> real) \<Rightarrow> arm list \<Rightarrow> nat" where
  "bestArmIdx_rd rd arms =
     foldl (\<lambda>b (a, i). if mean_rd rd a > mean_rd rd (arms ! b) then i else b) 0
       (zip arms [0..<length arms])"

definition computeAdaptiveAlloc_rd :: "(real \<Rightarrow> real) \<Rightarrow> arm list \<Rightarrow> real list option" where
  "computeAdaptiveAlloc_rd rd arms =
     (let minP = minPulls arms in
      if minP < 6 then Some (map (\<lambda>_. rd (1 / real (length arms))) arms)
      else
        let best = bestArmIdx_rd rd arms in
        if length arms \<le> best then None
        else
          let bestMean = mean_rd rd (arms ! best);
              w = map (\<lambda>(arm, i).
                         if i = best then None
                         else let gap = max (rd (bestMean - mean_rd rd arm)) (rd (5 / 1000))
                              in Some (rd (1 / rd (gap * gap))))
                      (zip arms [0..<length arms]);
              sumOthers = foldl (\<lambda>s (v, i). if i = best then s else rd (s + num v)) 0
                            (zip w [0..<length w]);
              w1 = w[best := Some (max sumOthers (rd (1 / 100)))];
              total = foldl (\<lambda>s v. rd (s + num v)) 0 w1
          in Some (map (\<lambda>v. rd (num v / total)) w1))"

text \<open>\<^verbatim>\<open>klBern\<close> with every arithmetic result rounded; \<^verbatim>\<open>Math.log\<close> is taken as the correctly
  rounded logarithm. At the identity it is \<open>klBern\<close>.\<close>

definition klBern_rd :: "(real \<Rightarrow> real) \<Rightarrow> real \<Rightarrow> real \<Rightarrow> real" where
  "klBern_rd rd p q =
     (let eps = rd (1 / 10 ^ 9);
          p1 = max eps (min (rd (1 - eps)) p);
          q1 = max eps (min (rd (1 - eps)) q)
      in rd (rd (p1 * rd (ln (rd (p1 / q1))))
             + rd (rd (1 - p1) * rd (ln (rd (rd (1 - p1) / rd (1 - q1)))))))"

subsection \<open>Simulation loop and controls\<close>

text \<open>
  The global variables of the script, as one record (the global \<^verbatim>\<open>arms\<close> is the field
  \<open>sim_arms\<close>). \<open>simTimer\<close> records whether the interval installed by \<^verbatim>\<open>startSim\<close> is
  active: \<^verbatim>\<open>setInterval\<close> makes it active and \<^verbatim>\<open>clearInterval\<close> ends it; \<^verbatim>\<open>startSim\<close> is only
  called while \<open>simRunning\<close> is false, and the invariant below keeps \<open>simTimer\<close> equal to
  \<open>simRunning\<close>, so that at most one interval is ever active. \<open>stepsPerTick\<close> is \<open>Some n\<close>
  for the number \<open>n\<close> and \<open>None\<close> for a value that is not a number, which \<^verbatim>\<open>setSpeed\<close> can
  store (see there). Of the page, only the winner bar is part of the state: \<open>winnerBar\<close> is
  \<open>None\<close> while the bar is hidden and holds the displayed arm index and pull count once
  \<^verbatim>\<open>showWinner\<close> has written it, and \<open>showCalls\<close> counts the calls of \<^verbatim>\<open>showWinner\<close> since
  \<^verbatim>\<open>resetSim\<close> last hid the bar; it is not a variable of the script, it records how often
  the script has produced its outcome. The chart, the allocation bars and the status
  texts are written by rendering code that changes no variable of the script; of that
  code the model keeps only the read \<^verbatim>\<open>arms[b].name\<close>, which throws when the index is out of
  range. A result \<open>None\<close> stands for a thrown TypeError.
\<close>

record sim =
  simMode :: mode
  simRunning :: bool
  simTimer :: bool
  stepsPerTick :: "nat option"
  sim_arms :: "arm list"
  allocHistory :: "(nat \<times> real list) list"
  simDone :: bool
  simWinner :: "nat option"
  winnerBar :: "(nat \<times> nat) option"
  showCalls :: nat

text \<open>\<^verbatim>\<open>simStep\<close>, with the draws \<open>r\<close> (in \<^verbatim>\<open>selectArm\<close>) and \<open>u\<close> (in \<^verbatim>\<open>pull\<close>).\<close>

definition simStep :: "real \<Rightarrow> real \<Rightarrow> sim \<Rightarrow> sim option" where
  "simStep r u s =
     (case currentAlloc (simMode s) (sim_arms s) of
        None \<Rightarrow> None
      | Some alloc \<Rightarrow>
          let idx = selectArm r alloc in
          if idx < 0 \<or> int (length (sim_arms s)) \<le> idx then None
          else
            let arms1 = (sim_arms s)[nat idx := pull u (sim_arms s ! nat idx)];
                t = totalPulls arms1;
                hist = (if t mod CHART_SAMPLE = 0 then allocHistory s @ [(t, alloc)]
                        else allocHistory s);
                s1 = s\<lparr>sim_arms := arms1, allocHistory := hist\<rparr>
            in if shouldStop arms1
               then Some (s1\<lparr>simDone := True, simWinner := Some (bestArmIdx arms1)\<rparr>)
               else Some s1)"

definition renderSim :: "sim \<Rightarrow> sim option" where
  "renderSim s = (if length (sim_arms s) \<le> bestArmIdx (sim_arms s) then None else Some s)"

definition showWinner :: "sim \<Rightarrow> sim option" where
  "showWinner s =
     (let w = (case simWinner s of Some w0 \<Rightarrow> w0 | None \<Rightarrow> bestArmIdx (sim_arms s))
      in if length (sim_arms s) \<le> w then None
         else Some (s\<lparr>winnerBar := Some (w, totalPulls (sim_arms s)),
                      showCalls := showCalls s + 1\<rparr>))"

definition startSim :: "sim \<Rightarrow> sim" where
  "startSim s = s\<lparr>simRunning := True, simTimer := True\<rparr>"

definition pauseSim :: "sim \<Rightarrow> sim option" where
  "pauseSim s = renderSim (s\<lparr>simRunning := False, simTimer := False\<rparr>)"

definition stopSim :: "sim \<Rightarrow> sim option" where
  "stopSim s = renderSim (s\<lparr>simRunning := False, simTimer := False\<rparr>)"

definition resetSim :: "sim \<Rightarrow> sim option" where
  "resetSim s =
     (case stopSim s of
        None \<Rightarrow> None
      | Some s1 \<Rightarrow>
          Some (s1\<lparr>sim_arms := map reset (sim_arms s1), allocHistory := [],
                   simDone := False, simWinner := None, winnerBar := None,
                   showCalls := 0\<rparr>))"

text \<open>The state in which the script starts: the initialisation creates one arm per entry
  of \<^verbatim>\<open>DEFAULT_RATES\<close>, and the winner bar of the page is hidden until \<^verbatim>\<open>showWinner\<close> shows it.\<close>

definition initial :: sim where
  "initial =
     \<lparr>simMode = Adaptive, simRunning = False, simTimer = False, stepsPerTick = Some 15,
      sim_arms = map newArm [0..<length DEFAULT_RATES], allocHistory = [],
      simDone = False, simWinner = None, winnerBar = None, showCalls = 0\<rparr>"

text \<open>The loop of \<^verbatim>\<open>runBatch\<close>; \<open>rnd i\<close> is the pair of draws of iteration \<open>i\<close>. The comparison
  \<^verbatim>\<open>i < stepsPerTick\<close> is false when \<^verbatim>\<open>stepsPerTick\<close> is not a number: its operand converts to
  \<^verbatim>\<open>NaN\<close>.\<close>

definition tickSteps :: "sim \<Rightarrow> nat" where
  "tickSteps s = (case stepsPerTick s of Some n \<Rightarrow> n | None \<Rightarrow> 0)"

function runBatch_loop :: "(nat \<Rightarrow> real \<times> real) \<Rightarrow> nat \<Rightarrow> sim \<Rightarrow> sim option" where
  "runBatch_loop rnd i s =
     (if (case stepsPerTick s of Some n \<Rightarrow> i < n | None \<Rightarrow> False) then
        (if simDone s \<or> MAX_STEPS \<le> totalPulls (sim_arms s) then Some s
         else case simStep (fst (rnd i)) (snd (rnd i)) s of
                None \<Rightarrow> None
              | Some s1 \<Rightarrow> runBatch_loop rnd (Suc i) s1)
      else Some s)"
  by pat_completeness auto
termination
proof (relation "measure (\<lambda>(rnd, i, s). tickSteps s - i)")
  show "wf (measure (\<lambda>(rnd, i, s). tickSteps s - i))" by simp
next
  fix rnd :: "nat \<Rightarrow> real \<times> real" and i :: nat and s s1 :: sim
  assume c: "case stepsPerTick s of Some n \<Rightarrow> i < n | None \<Rightarrow> False"
    and st: "simStep (fst (rnd i)) (snd (rnd i)) s = Some s1"
  from c have i: "i < tickSteps s"
    by (simp add: tickSteps_def split: option.splits)
  from st have "stepsPerTick s1 = stepsPerTick s"
    by (auto simp: simStep_def Let_def split: option.splits if_splits)
  then have "tickSteps s1 = tickSteps s" by (simp add: tickSteps_def)
  with i show "((rnd, Suc i, s1), (rnd, i, s)) \<in> measure (\<lambda>(rnd, i, s). tickSteps s - i)"
    by simp
qed

declare runBatch_loop.simps [simp del]

definition runBatch :: "(nat \<Rightarrow> real \<times> real) \<Rightarrow> sim \<Rightarrow> sim option" where
  "runBatch rnd s =
     (case runBatch_loop rnd 0 s of
        None \<Rightarrow> None
      | Some s1 \<Rightarrow>
          (case renderSim s1 of
             None \<Rightarrow> None
           | Some s2 \<Rightarrow>
               if simDone s2 \<or> MAX_STEPS \<le> totalPulls (sim_arms s2)
               then (case stopSim s2 of None \<Rightarrow> None | Some s3 \<Rightarrow> showWinner s3)
               else Some s2))"

definition setMode :: "mode \<Rightarrow> sim \<Rightarrow> sim option" where
  "setMode m s = resetSim (s\<lparr>simMode := m\<rparr>)"

text \<open>
  \<^verbatim>\<open>setSpeed\<close> looks its argument up in an object literal with the keys \<^verbatim>\<open>'1'\<close>, \<^verbatim>\<open>'3'\<close>, \<^verbatim>\<open>'10'\<close>
  and \<^verbatim>\<open>'50'\<close> and takes \<open>15\<close> when the result is falsy. For a name that every object inherits
  from \<^verbatim>\<open>Object.prototype\<close> the lookup finds the inherited function (or, for \<^verbatim>\<open>__proto__\<close>, the
  prototype object), which is truthy and is stored. \<open>objectPrototypeKeys\<close> lists the names
  of the language standard and its annex for browsers.
\<close>

definition objectPrototypeKeys :: "string list" where
  "objectPrototypeKeys =
     [''constructor'', ''hasOwnProperty'', ''isPrototypeOf'', ''propertyIsEnumerable'',
      ''toLocaleString'', ''toString'', ''valueOf'', ''__proto__'',
      ''__defineGetter__'', ''__defineSetter__'', ''__lookupGetter__'', ''__lookupSetter__'']"

definition setSpeed :: "string \<Rightarrow> sim \<Rightarrow> sim" where
  "setSpeed v s =
     s\<lparr>stepsPerTick :=
         (if v = ''1'' then Some 5 else if v = ''3'' then Some 15
          else if v = ''10'' then Some 50 else if v = ''50'' then Some 200
          else if v \<in> set objectPrototypeKeys then None
          else Some 15)\<rparr>"

definition setRate :: "nat \<Rightarrow> real \<Rightarrow> sim \<Rightarrow> sim option" where
  "setRate i v s =
     (if length (sim_arms s) \<le> i then None
      else Some (s\<lparr>sim_arms := (sim_arms s)[i := (sim_arms s ! i)\<lparr>trueRate := v / 100\<rparr>]\<rparr>))"

definition togglePlay :: "sim \<Rightarrow> sim option" where
  "togglePlay s =
     (if simDone s then resetSim s
      else if simRunning s then pauseSim s else Some (startSim s))"

text \<open>
  The events that drive the script: a tick of the interval timer, which calls
  \<^verbatim>\<open>runBatch\<close> and is delivered only while the interval is active, and the controls of
  the page. The handlers that call \<^verbatim>\<open>resetSim\<close> are \<^verbatim>\<open>setMode\<close>, and \<^verbatim>\<open>togglePlay\<close> when
  \<open>simDone\<close> is set.
\<close>

datatype event =
    Tick "nat \<Rightarrow> real \<times> real"
  | TogglePlay
  | SetMode mode
  | SetSpeed string
  | SetRate nat real

fun fire :: "event \<Rightarrow> sim \<Rightarrow> sim option" where
  "fire (Tick rnd) s = (if simTimer s then runBatch rnd s else Some s)"
| "fire TogglePlay s = togglePlay s"
| "fire (SetMode m) s = setMode m s"
| "fire (SetSpeed v) s = Some (setSpeed v s)"
| "fire (SetRate i v) s = setRate i v s"

fun is_tick :: "event \<Rightarrow> bool" where
  "is_tick (Tick rnd) = True"
| "is_tick e = False"

fun is_reset :: "event \<Rightarrow> sim \<Rightarrow> bool" where
  "is_reset (SetMode m) s = True"
| "is_reset TogglePlay s = simDone s"
| "is_reset e s = False"

text \<open>
  Spec-side notions for the driver. A state is terminal when the flag of the stopping rule
  is set or the step cap is reached; \<open>stop_or_cap\<close> is the same condition on the arms, with
  the stopping rule itself in place of its flag. \<open>outcome\<close> is the outcome a terminal state
  displays, \<open>counts\<close> the pull and success counts of the arms. \<open>simSteps rnd i k\<close> is \<open>k\<close>
  calls of \<^verbatim>\<open>simStep\<close> in a row, with the draws \<open>rnd i\<close>, \<open>rnd (i + 1)\<close> and so on. \<open>driver_inv\<close>
  is the invariant of the states the script reaches.
\<close>

definition terminal :: "sim \<Rightarrow> bool" where
  "terminal s \<longleftrightarrow> simDone s \<or> MAX_STEPS \<le> totalPulls (sim_arms s)"

definition stop_or_cap :: "arm list \<Rightarrow> bool" where
  "stop_or_cap arms \<longleftrightarrow> shouldStop arms \<or> MAX_STEPS \<le> totalPulls arms"

definition outcome :: "sim \<Rightarrow> nat \<times> nat" where
  "outcome s = (bestArmIdx (sim_arms s), totalPulls (sim_arms s))"

definition counts :: "sim \<Rightarrow> (nat \<times> nat) list" where
  "counts s = map (\<lambda>a. (pulls a, successes a)) (sim_arms s)"

fun simSteps :: "(nat \<Rightarrow> real \<times> real) \<Rightarrow> nat \<Rightarrow> nat \<Rightarrow> sim \<Rightarrow> sim option" where
  "simSteps rnd i 0 s = Some s"
| "simSteps rnd i (Suc k) s =
     (case simStep (fst (rnd i)) (snd (rnd i)) s of
        None \<Rightarrow> None
      | Some s1 \<Rightarrow> simSteps rnd (Suc i) k s1)"

definition driver_inv :: "sim \<Rightarrow> bool" where
  "driver_inv s \<longleftrightarrow>
     sim_arms s \<noteq> []
     \<and> totalPulls (sim_arms s) \<le> MAX_STEPS
     \<and> simDone s = shouldStop (sim_arms s)
     \<and> simWinner s = (if simDone s then Some (bestArmIdx (sim_arms s)) else None)
     \<and> winnerBar s = (if terminal s then Some (outcome s) else None)
     \<and> (showCalls s = 0) = (\<not> terminal s)
     \<and> (simDone s \<longrightarrow> showCalls s = 1 \<and> \<not> simTimer s)
     \<and> simTimer s = simRunning s"

text \<open>The states the script reaches from its initial state.\<close>

inductive reachable :: "sim \<Rightarrow> bool" where
  init: "reachable initial"
| step: "reachable s \<Longrightarrow> fire e s = Some s' \<Longrightarrow> reachable s'"

text \<open>
  What a tick of the active timer does to the arms: it makes \<open>k\<close> steps, where \<open>k\<close> is the
  first number of steps after which the stopping rule holds or the cap is reached, or the
  number of steps of a batch when that comes first.
\<close>

definition tick_steps_to :: "(nat \<Rightarrow> real \<times> real) \<Rightarrow> sim \<Rightarrow> sim \<Rightarrow> nat \<Rightarrow> bool" where
  "tick_steps_to rnd s s' k \<longleftrightarrow>
     k \<le> tickSteps s
     \<and> (\<exists>sk. simSteps rnd 0 k s = Some sk
            \<and> sim_arms s' = sim_arms sk \<and> simDone s' = simDone sk
            \<and> simWinner s' = simWinner sk \<and> allocHistory s' = allocHistory sk)
     \<and> (\<forall>j < k. \<forall>sj. simSteps rnd 0 j s = Some sj \<longrightarrow> \<not> stop_or_cap (sim_arms sj))
     \<and> (k = tickSteps s \<or> stop_or_cap (sim_arms s'))
     \<and> totalPulls (sim_arms s') = totalPulls (sim_arms s) + k"

text \<open>Example states and draws: a run of the four arms one step before the cap and at
  the cap, and one step before the stopping rule fires and after it has fired. \<open>armsAt\<close> is
  the list of arms that the initialisation creates, at the given pull and success
  counts. The draw \<open>9 / 10\<close> in \<^verbatim>\<open>selectArm\<close> selects the last of four arms of equal
  share.\<close>

definition capDraws :: "nat \<Rightarrow> real \<times> real" where
  "capDraws i = (9 / 10, 1 / 10)"

definition stopDraws :: "nat \<Rightarrow> real \<times> real" where
  "stopDraws i = (9 / 10, 9 / 10)"

fun armsFrom :: "nat \<Rightarrow> (nat \<times> nat) list \<Rightarrow> arm list" where
  "armsFrom i [] = []"
| "armsFrom i ((p, k) # cs) = (newArm i)\<lparr>pulls := p, successes := k\<rparr> # armsFrom (Suc i) cs"

definition armsAt :: "(nat \<times> nat) list \<Rightarrow> arm list" where
  "armsAt cs = armsFrom 0 cs"

definition beforeCap :: sim where
  "beforeCap =
     \<lparr>simMode = Uniform, simRunning = True, simTimer = True, stepsPerTick = Some 15,
      sim_arms = armsAt [(1250, 625), (1250, 625), (1250, 625), (1249, 624)],
      allocHistory = [], simDone = False, simWinner = None, winnerBar = None,
      showCalls = 0\<rparr>"

definition capped :: "bool \<Rightarrow> nat \<Rightarrow> sim" where
  "capped running n =
     \<lparr>simMode = Uniform, simRunning = running, simTimer = running, stepsPerTick = Some 15,
      sim_arms = armsAt [(1250, 625), (1250, 625), (1250, 625), (1250, 625)],
      allocHistory = [], simDone = False, simWinner = None, winnerBar = Some (0, 5000),
      showCalls = n\<rparr>"

definition beforeStop :: sim where
  "beforeStop =
     \<lparr>simMode = Uniform, simRunning = True, simTimer = True, stepsPerTick = Some 15,
      sim_arms = armsAt [(12, 12), (12, 0), (12, 0), (11, 0)],
      allocHistory = [], simDone = False, simWinner = None, winnerBar = None,
      showCalls = 0\<rparr>"

definition stopped :: sim where
  "stopped =
     \<lparr>simMode = Uniform, simRunning = False, simTimer = False, stepsPerTick = Some 15,
      sim_arms = armsAt [(12, 12), (12, 0), (12, 0), (12, 0)],
      allocHistory = [], simDone = True, simWinner = Some 0, winnerBar = Some (0, 48),
      showCalls = 1\<rparr>"

text \<open>Proof-side notions for the driver: the part of the invariant that the loop of
  \<^verbatim>\<open>runBatch\<close> maintains, the variables that \<^verbatim>\<open>simStep\<close> leaves alone, and what one event
  guarantees.\<close>

definition loop_inv :: "sim \<Rightarrow> bool" where
  "loop_inv s \<longleftrightarrow>
     sim_arms s \<noteq> []
     \<and> totalPulls (sim_arms s) \<le> MAX_STEPS
     \<and> simDone s = shouldStop (sim_arms s)
     \<and> simWinner s = (if simDone s then Some (bestArmIdx (sim_arms s)) else None)"

definition same_controls :: "sim \<Rightarrow> sim \<Rightarrow> bool" where
  "same_controls s s1 \<longleftrightarrow>
     simMode s1 = simMode s \<and> simRunning s1 = simRunning s \<and> simTimer s1 = simTimer s
     \<and> stepsPerTick s1 = stepsPerTick s \<and> winnerBar s1 = winnerBar s
     \<and> showCalls s1 = showCalls s"

definition step_ok :: "event \<Rightarrow> sim \<Rightarrow> sim \<Rightarrow> bool" where
  "step_ok e s s' \<longleftrightarrow>
     driver_inv s'
     \<and> (terminal s' \<longleftrightarrow> stop_or_cap (sim_arms s'))
     \<and> (simDone s' \<longleftrightarrow> shouldStop (sim_arms s'))
     \<and> (\<not> terminal s \<and> terminal s' \<longrightarrow>
          is_tick e \<and> winnerBar s = None \<and> showCalls s = 0
          \<and> winnerBar s' = Some (outcome s') \<and> showCalls s' = 1
          \<and> \<not> simRunning s' \<and> \<not> simTimer s')
     \<and> (terminal s \<and> \<not> is_reset e s \<longrightarrow>
          terminal s' \<and> counts s' = counts s \<and> outcome s' = outcome s
          \<and> winnerBar s' = winnerBar s)
     \<and> (simDone s' \<longrightarrow>
          simWinner s' = Some (bestArmIdx (sim_arms s')) \<and> showCalls s' = 1)
     \<and> (is_reset e s \<longrightarrow>
          \<not> terminal s' \<and> winnerBar s' = None \<and> showCalls s' = 0
          \<and> totalPulls (sim_arms s') = 0)
     \<and> (\<forall>rnd. e = Tick rnd \<and> simTimer s \<longrightarrow> (\<exists>k. tick_steps_to rnd s s' k))"

text \<open>Spec-side notions used to state the properties: the cumulative weight up to and
  including index \<open>i\<close>, summed left to right, and the arms that are the first to attain the
  maximal mean.\<close>

definition cumWeight :: "real list \<Rightarrow> nat \<Rightarrow> real" where
  "cumWeight alloc i = foldl (+) 0 (take (Suc i) alloc)"

definition first_max_mean :: "arm list \<Rightarrow> nat \<Rightarrow> bool" where
  "first_max_mean arms b \<longleftrightarrow>
     b < length arms
     \<and> (\<forall>j < length arms. mean (arms ! j) \<le> mean (arms ! b))
     \<and> (\<forall>j < b. mean (arms ! j) < mean (arms ! b))"

text \<open>Proof-side names for the step of the fold in \<^verbatim>\<open>bestArmIdx\<close> and for the fold over the
  first \<open>k\<close> arms.\<close>

definition best_step :: "arm list \<Rightarrow> nat \<Rightarrow> arm \<times> nat \<Rightarrow> nat" where
  "best_step arms = (\<lambda>b (a, i). if mean a > mean (arms ! b) then i else b)"

definition best_upto :: "arm list \<Rightarrow> nat \<Rightarrow> nat" where
  "best_upto arms k = foldl (best_step arms) 0 (zip (take k arms) [0..<k])"

text \<open>Proof-side names for the intermediate values of \<^verbatim>\<open>computeAdaptiveAlloc\<close>: the weight
  \<open>1 / gap\<^sup>2\<close> of a challenger, the array \<^verbatim>\<open>w\<close> before and after the entry of the best arm is
  assigned, \<^verbatim>\<open>sumOthers\<close> and \<^verbatim>\<open>total\<close>.\<close>

definition gapWeight :: "real \<Rightarrow> arm \<Rightarrow> real" where
  "gapWeight bestMean a = (let gap = max (bestMean - mean a) (5 / 1000) in 1 / (gap * gap))"

definition rawWeights :: "arm list \<Rightarrow> nat \<Rightarrow> real option list" where
  "rawWeights arms best =
     map (\<lambda>(a, i). if i = best then None else Some (gapWeight (mean (arms ! best)) a))
       (zip arms [0..<length arms])"

definition othersSum :: "arm list \<Rightarrow> nat \<Rightarrow> real" where
  "othersSum arms best =
     foldl (\<lambda>s (v, i). if i = best then s else s + num v) 0
       (zip (rawWeights arms best) [0..<length (rawWeights arms best)])"

definition finalWeights :: "arm list \<Rightarrow> nat \<Rightarrow> real option list" where
  "finalWeights arms best = (rawWeights arms best)[best := Some (max (othersSum arms best) (1 / 100))]"

definition weightTotal :: "arm list \<Rightarrow> nat \<Rightarrow> real" where
  "weightTotal arms best = foldl (\<lambda>s v. s + num v) 0 (finalWeights arms best)"

text \<open>The clamp that \<^verbatim>\<open>klBern\<close> applies to each argument, named for the proofs.\<close>

definition clamp9 :: "real \<Rightarrow> real" where
  "clamp9 p = max (1 / 10 ^ 9) (min (1 - 1 / 10 ^ 9) p)"

section \<open>Properties\<close>

subsection \<open>Arm statistics\<close>

text \<open>
  Claim C9. For every arm state with \<open>0 \<le> successes \<le> pulls\<close>, the mean estimate lies in
  \<open>[0, 1]\<close>; it is \<open>successes / pulls\<close> when \<open>pulls > 0\<close>, and it is exactly one half when
  \<open>pulls = 0\<close>.
\<close>

theorem mean_range_and_value:
  assumes "valid_arm a"
  shows "0 \<le> mean a \<and> mean a \<le> 1
       \<and> (pulls a > 0 \<longrightarrow> mean a = real (successes a) / real (pulls a))
       \<and> (pulls a = 0 \<longrightarrow> mean a = 1 / 2)"
  using assms by (simp add: mean_def valid_arm_def)

theorem mean_range_and_value_witness:
  "valid_arm \<lparr>idx = 0, trueRate = 55 / 100, pulls = 4, successes = 3\<rparr>
   \<and> mean \<lparr>idx = 0, trueRate = 55 / 100, pulls = 4, successes = 3\<rparr> = 3 / 4
   \<and> mean \<lparr>idx = 0, trueRate = 55 / 100, pulls = 0, successes = 0\<rparr> = 1 / 2"
  using mean_range_and_value [of "\<lparr>idx = 0, trueRate = 55 / 100, pulls = 4, successes = 3\<rparr>"]
        mean_range_and_value [of "\<lparr>idx = 0, trueRate = 55 / 100, pulls = 0, successes = 0\<rparr>"]
  by (simp add: valid_arm_def)

subsection \<open>Double-precision rounding\<close>

lemma expo_numeral:
  "expo (numeral k) x =
     (if 2 \<le> x then expo (pred_numeral k) (x / 2) + 1
      else if x < 1 then expo (pred_numeral k) (2 * x) - 1
      else 0)"
  by (simp add: numeral_eq_Suc)

lemmas b64 = binary64_def expo_numeral rne_def scale2_def Let_def

text \<open>The rounding error of \<open>binary64\<close> is at most half a unit in the last place: a relative
  error of at most \<open>1 / 2 ^ 53\<close>, for values in the range of binary64.\<close>

lemma scale2_powi: "scale2 x n = x * 2 powi n"
  by (simp add: scale2_def power_int_def field_simps)

lemma powi_Suc: "(2::real) powi (n + 1) = 2 * 2 powi n"
  by (simp add: power_int_add)

lemma expo_correct:
  "(2::real) powi (- int n) \<le> x \<Longrightarrow> x < 2 powi (int n + 1) \<Longrightarrow>
     2 powi (expo n x) \<le> x \<and> x < 2 powi (expo n x + 1)"
proof (induction n arbitrary: x)
  case 0
  then show ?case by simp
next
  case (Suc n)
  have one: "(2::real) powi (- int n) \<le> 1"
    by (simp add: power_int_def field_simps)
  have two: "(2::real) \<le> 2 powi (int n + 1)"
    using one_le_power [of "2::real" n] by (simp add: powi_Suc)
  show ?case
  proof (cases "2 \<le> x")
    case True
    have "2 powi (- int n) \<le> x / 2" using True one by simp
    moreover have "x / 2 < 2 powi (int n + 1)"
      using Suc.prems(2) powi_Suc [of "int n + 1"] by (simp add: add.commute)
    ultimately have "2 powi (expo n (x / 2)) \<le> x / 2 \<and> x / 2 < 2 powi (expo n (x / 2) + 1)"
      by (rule Suc.IH)
    then show ?thesis
      using True powi_Suc [of "expo n (x / 2)"] powi_Suc [of "expo n (x / 2) + 1"]
      by (simp add: add.commute)
  next
    case False
    show ?thesis
    proof (cases "x < 1")
      case True
      have "2 powi (- int (Suc n)) \<le> x" using Suc.prems(1) .
      moreover have "(2::real) powi (- int n) = 2 * 2 powi (- int (Suc n))"
        using powi_Suc [of "- int (Suc n)"] by simp
      ultimately have "2 powi (- int n) \<le> 2 * x" by simp
      moreover have "2 * x < 2 powi (int n + 1)" using True two by simp
      ultimately have "2 powi (expo n (2 * x)) \<le> 2 * x \<and> 2 * x < 2 powi (expo n (2 * x) + 1)"
        by (rule Suc.IH)
      then show ?thesis
        using True False powi_Suc [of "expo n (2 * x) - 1"] powi_Suc [of "expo n (2 * x)"]
        by simp
    next
      case ge: False
      then show ?thesis using False by simp
    qed
  qed
qed

lemma rne_err: "\<bar>of_int (rne y) - y\<bar> \<le> 1 / 2"
proof -
  have "of_int \<lfloor>y\<rfloor> \<le> y" "y < of_int \<lfloor>y\<rfloor> + 1" by linarith+
  then show ?thesis
    by (auto simp: rne_def Let_def)
qed

lemma binary64_rel:
  assumes "2 powi (- 1100) \<le> \<bar>x\<bar>" and "\<bar>x\<bar> < 2 powi 1101"
  shows "\<bar>binary64 x - x\<bar> \<le> \<bar>x\<bar> / 2 ^ 53"
proof -
  define e where "e = expo 1100 \<bar>x\<bar>"
  have pos: "0 < \<bar>x\<bar>"
    using assms(1) zero_less_power_int [of "2::real" "- 1100"] by linarith
  then have nz: "x \<noteq> 0" by auto
  have "2 powi (- int 1100) \<le> \<bar>x\<bar>" "\<bar>x\<bar> < 2 powi (int 1100 + 1)"
    using assms by simp_all
  from expo_correct [OF this] have e: "2 powi e \<le> \<bar>x\<bar>" "\<bar>x\<bar> < 2 powi (e + 1)"
    by (simp_all add: e_def)
  define y where "y = \<bar>x\<bar> * 2 powi (52 - e)"
  define k where "k = rne y"
  have b: "binary64 x = sgn x * (of_int k * 2 powi (e - 52))"
    using nz by (simp add: binary64_def Let_def scale2_powi e_def y_def k_def)
  have inv: "(2::real) powi (52 - e) * 2 powi (e - 52) = 1"
    by (simp add: power_int_add [symmetric])
  have x: "x = sgn x * (y * 2 powi (e - 52))"
  proof -
    have "y * 2 powi (e - 52) = \<bar>x\<bar>"
      using inv by (simp add: y_def mult.assoc)
    then show ?thesis by (simp add: sgn_mult_abs)
  qed
  have "binary64 x - x = sgn x * ((of_int k - y) * 2 powi (e - 52))"
    by (subst b, subst (2) x) (simp add: algebra_simps)
  then have "\<bar>binary64 x - x\<bar> = \<bar>of_int k - y\<bar> * 2 powi (e - 52)"
    using nz by (simp add: abs_mult abs_sgn_eq)
  also have "\<dots> \<le> 1 / 2 * 2 powi (e - 52)"
    using rne_err [of y] by (intro mult_right_mono) (simp_all add: k_def)
  also have "\<dots> = 2 powi e / 2 ^ 53"
  proof -
    have "(2::real) powi e = 2 powi (e - 52) * 2 powi 52"
      using power_int_add [of "2::real" "e - 52" 52] by simp
    then show ?thesis by simp
  qed
  also have "\<dots> \<le> \<bar>x\<bar> / 2 ^ 53"
    using e(1) by (simp add: divide_right_mono)
  finally show ?thesis .
qed


lemma b64_range:
  assumes "1 / 2 ^ 100 \<le> \<bar>x\<bar>" and "\<bar>x\<bar> \<le> 2 ^ 100"
  shows "\<bar>binary64 x - x\<bar> \<le> \<bar>x\<bar> / 2 ^ 53"
proof (rule binary64_rel)
  have "(2::real) powi (- 1100) = 1 / 2 ^ 1100"
    by (simp add: power_int_minus_divide)
  also have "\<dots> \<le> 1 / 2 ^ 100"
    by (intro divide_left_mono power_increasing) simp_all
  finally show "2 powi (- 1100) \<le> \<bar>x\<bar>" using assms(1) by linarith
  have "(2::real) ^ 100 < 2 ^ 1101"
    by (intro power_strict_increasing) simp_all
  then show "\<bar>x\<bar> < 2 powi 1101" using assms(2) by simp
qed

lemma b64_neg:
  assumes "lo \<le> x" and "x \<le> hi" and "hi < 0"
    and "1 / 2 ^ 100 \<le> - hi" and "- lo \<le> 2 ^ 100"
  shows "lo * (1 + 1 / 2 ^ 53) \<le> binary64 x" and "binary64 x \<le> hi * (1 - 1 / 2 ^ 53)"
proof -
  define c where "c = x / 2 ^ 53"
  have ax: "\<bar>x\<bar> = - x" using assms(2,3) by simp
  have "\<bar>binary64 x - x\<bar> \<le> \<bar>x\<bar> / 2 ^ 53"
    using assms by (intro b64_range) (simp_all add: ax)
  then have d: "\<bar>binary64 x - x\<bar> \<le> - c" by (simp add: ax c_def)
  have e1: "x * (1 - 1 / 2 ^ 53) = x - c" and e2: "x * (1 + 1 / 2 ^ 53) = x + c"
    by (simp_all add: c_def algebra_simps)
  have 1: "binary64 x \<le> x * (1 - 1 / 2 ^ 53)" unfolding e1 using d by linarith
  have 2: "x * (1 + 1 / 2 ^ 53) \<le> binary64 x" unfolding e2 using d by linarith
  have "x * (1 - 1 / 2 ^ 53) \<le> hi * (1 - 1 / 2 ^ 53)"
    using assms(2) by (intro mult_right_mono) simp_all
  with 1 show "binary64 x \<le> hi * (1 - 1 / 2 ^ 53)" by (rule order_trans)
  have "lo * (1 + 1 / 2 ^ 53) \<le> x * (1 + 1 / 2 ^ 53)"
    using assms(1) by (intro mult_right_mono) simp_all
  then show "lo * (1 + 1 / 2 ^ 53) \<le> binary64 x" using 2 by (rule order_trans)
qed

lemma b64_pos:
  assumes "lo \<le> x" and "x \<le> hi" and "0 < lo"
    and "1 / 2 ^ 100 \<le> lo" and "hi \<le> 2 ^ 100"
  shows "lo * (1 - 1 / 2 ^ 53) \<le> binary64 x" and "binary64 x \<le> hi * (1 + 1 / 2 ^ 53)"
proof -
  define c where "c = x / 2 ^ 53"
  have ax: "\<bar>x\<bar> = x" using assms(1,3) by simp
  have "\<bar>binary64 x - x\<bar> \<le> \<bar>x\<bar> / 2 ^ 53"
    using assms by (intro b64_range) (simp_all add: ax)
  then have d: "\<bar>binary64 x - x\<bar> \<le> c" by (simp add: ax c_def)
  have e1: "x * (1 + 1 / 2 ^ 53) = x + c" and e2: "x * (1 - 1 / 2 ^ 53) = x - c"
    by (simp_all add: c_def algebra_simps)
  have 1: "binary64 x \<le> x * (1 + 1 / 2 ^ 53)" unfolding e1 using d by linarith
  have 2: "x * (1 - 1 / 2 ^ 53) \<le> binary64 x" unfolding e2 using d by linarith
  have "x * (1 + 1 / 2 ^ 53) \<le> hi * (1 + 1 / 2 ^ 53)"
    using assms(2) by (intro mult_right_mono) simp_all
  with 1 show "binary64 x \<le> hi * (1 + 1 / 2 ^ 53)" by (rule order_trans)
  have "lo * (1 - 1 / 2 ^ 53) \<le> x * (1 - 1 / 2 ^ 53)"
    using assms(1) by (intro mult_right_mono) simp_all
  then show "lo * (1 - 1 / 2 ^ 53) \<le> binary64 x" using 2 by (rule order_trans)
qed

subsection \<open>Bernoulli KL divergence\<close>

lemma clamp9_range: "0 < clamp9 p \<and> clamp9 p < 1"
  by (simp add: clamp9_def max_def min_def)

lemma klBern_clamp9:
  "klBern p q = clamp9 p * ln (clamp9 p / clamp9 q)
                + (1 - clamp9 p) * ln ((1 - clamp9 p) / (1 - clamp9 q))"
  by (simp add: klBern_def clamp9_def Let_def)

text \<open>Gibbs' inequality for two Bernoulli parameters, from \<open>ln x \<le> x - 1\<close>.\<close>

lemma kl_core_nonneg:
  fixes a b :: real
  assumes a: "0 < a" "a < 1" and b: "0 < b" "b < 1"
  shows "0 \<le> a * ln (a / b) + (1 - a) * ln ((1 - a) / (1 - b))"
proof -
  have "ln (b / a) \<le> b / a - 1"
    using a b by (intro ln_le_minus_one) simp
  then have "a * ln (b / a) \<le> a * (b / a - 1)"
    using a by (intro mult_left_mono) simp_all
  also have "\<dots> = b - a"
    using a by (simp add: field_simps)
  finally have 1: "a * ln (b / a) \<le> b - a" .
  have "ln ((1 - b) / (1 - a)) \<le> (1 - b) / (1 - a) - 1"
    using a b by (intro ln_le_minus_one) simp
  then have "(1 - a) * ln ((1 - b) / (1 - a)) \<le> (1 - a) * ((1 - b) / (1 - a) - 1)"
    using a by (intro mult_left_mono) simp_all
  also have "\<dots> = a - b"
    using a by (simp add: field_simps)
  finally have 2: "(1 - a) * ln ((1 - b) / (1 - a)) \<le> a - b" .
  have 3: "ln (a / b) = - ln (b / a)"
    using a b by (simp add: ln_div)
  have 4: "ln ((1 - a) / (1 - b)) = - ln ((1 - b) / (1 - a))"
    using a b by (simp add: ln_div)
  show ?thesis
    unfolding 3 4 using 1 2 by simp
qed

lemma klBern_rd_exact: "klBern_rd (\<lambda>x. x) p q = klBern p q"
  by (simp add: klBern_rd_def klBern_def Let_def)

lemma ln_bounds:
  assumes "0 < (x::real)"
  shows "1 - 1 / x \<le> ln x" and "ln x \<le> x - 1"
proof -
  show "ln x \<le> x - 1" using assms by (rule ln_le_minus_one)
  have "ln (1 / x) \<le> 1 / x - 1" using assms by (intro ln_le_minus_one) simp
  then show "1 - 1 / x \<le> ln x" using assms by (simp add: ln_div)
qed

lemma klBern_rd_unclamped:
  assumes "rd (1 / 10 ^ 9) \<le> p" and "p \<le> rd (1 - rd (1 / 10 ^ 9))"
    and "rd (1 / 10 ^ 9) \<le> q" and "q \<le> rd (1 - rd (1 / 10 ^ 9))"
  shows "klBern_rd rd p q =
           rd (rd (p * rd (ln (rd (p / q))))
               + rd (rd (1 - p) * rd (ln (rd (rd (1 - p) / rd (1 - q))))))"
  using assms by (simp add: klBern_rd_def Let_def max_def min_def)

lemma klBern_rd_binary64_self: "klBern_rd binary64 p p = 0"
proof -
  define p1 where "p1 = max (binary64 (1 / 10 ^ 9)) (min (binary64 (1 - binary64 (1 / 10 ^ 9))) p)"
  have eps: "binary64 (1 / 10 ^ 9) = 4835703278458517 / 4835703278458516698824704"
    by (simp add: b64)
  have top: "binary64 (1 - 4835703278458517 / 4835703278458516698824704)
               = 9007199245733793 / 9007199254740992"
    by (simp add: b64)
  have r: "4835703278458517 / 4835703278458516698824704 \<le> p1"
    "p1 \<le> 9007199245733793 / 9007199254740992"
    unfolding p1_def eps top by (simp_all add: max_def min_def)
  have pz: "p1 \<noteq> 0" using r(1) by auto
  have "1 - 9007199245733793 / 9007199254740992 \<le> 1 - p1"
    "1 - p1 \<le> 1 - 4835703278458517 / 4835703278458516698824704"
    using r by simp_all
  from b64_pos(1) [OF this] have "0 < binary64 (1 - p1)" by simp
  then have sz: "binary64 (1 - p1) \<noteq> 0" by simp
  have one: "binary64 1 = 1" by (simp add: b64)
  have zero: "binary64 0 = 0" by (simp add: binary64_def)
  have "klBern_rd binary64 p p =
          binary64 (binary64 (p1 * binary64 (ln (binary64 (p1 / p1))))
             + binary64 (binary64 (1 - p1)
                  * binary64 (ln (binary64 (binary64 (1 - p1) / binary64 (1 - p1))))))"
    by (simp add: klBern_rd_def Let_def p1_def)
  then show ?thesis using pz sz by (simp add: one zero)
qed

text \<open>
  Claim C5, as amended. \<open>klBern p p = 0\<close> for every \<open>p\<close>, in exact arithmetic and in the
  double-precision arithmetic of the script; in exact real arithmetic the value computed
  from the clamped arguments is non-negative for all real inputs \<open>p\<close>, \<open>q\<close>.
\<close>

theorem klBern_self_zero_nonneg:
  "klBern p p = 0 \<and> 0 \<le> klBern p q \<and> klBern_rd binary64 p p = 0"
proof (intro conjI)
  have "clamp9 p \<noteq> 0" "1 - clamp9 p \<noteq> 0"
    using clamp9_range [of p] by simp_all
  then show "klBern p p = 0"
    by (simp add: klBern_clamp9)
  show "0 \<le> klBern p q"
    unfolding klBern_clamp9
    using clamp9_range [of p] clamp9_range [of q] by (intro kl_core_nonneg) simp_all
  show "klBern_rd binary64 p p = 0"
    by (rule klBern_rd_binary64_self)
qed

text \<open>
  Claim C5 as stated, in the arithmetic of the script: the value computed by
  \<^verbatim>\<open>klBern(0.2615, 0.261500000001)\<close> is negative. The quotients \<open>p / q\<close> and
  \<open>(1 - p) / (1 - q)\<close> round to \<^verbatim>\<open>1 - 3.824e-12\<close> and \<^verbatim>\<open>1 + 1.354e-12\<close>; with \<open>ln x \<le> x - 1\<close>
  and the rounding error bound, the two products sum to at most \<^verbatim>\<open>-2.039e-16\<close>, where the
  exact divergence is about \<^verbatim>\<open>2.6e-24\<close>.
\<close>

theorem klBern_binary64_negative_counterexample:
  "klBern_rd binary64 (binary64 (2615 / 10000)) (binary64 (261500000001 / 1000000000000)) < 0"
proof -
  define P where "P = binary64 (2615 / 10000)"
  define Q where "Q = binary64 (261500000001 / 1000000000000)"
  have Pv: "P = 4710765210229539 / 18014398509481984"
    by (simp add: P_def b64)
  have Qv: "Q = 4710765210247553 / 18014398509481984"
    by (simp add: Q_def b64)
  have eps: "binary64 (1 / 10 ^ 9) = 4835703278458517 / 4835703278458516698824704"
    by (simp add: b64)
  have top: "binary64 (1 - 4835703278458517 / 4835703278458516698824704)
               = 9007199245733793 / 9007199254740992"
    by (simp add: b64)
  have cl: "binary64 (1 / 10 ^ 9) \<le> P" "P \<le> binary64 (1 - binary64 (1 / 10 ^ 9))"
    "binary64 (1 / 10 ^ 9) \<le> Q" "Q \<le> binary64 (1 - binary64 (1 / 10 ^ 9))"
    unfolding eps top by (simp_all add: Pv Qv)
  have A: "binary64 (P / Q) = 2251799813676637 / 2251799813685248"
    by (simp add: Pv Qv b64)
  have SP: "binary64 (1 - P) = 3325908324813111 / 4503599627370496"
    by (simp add: Pv b64)
  have SQ: "binary64 (1 - Q) = 103934635150269 / 140737488355328"
    by (simp add: Qv b64)
  have B: "binary64 (3325908324813111 / 4503599627370496 / (103934635150269 / 140737488355328))
             = 4503599627376593 / 4503599627370496"
    by (simp add: b64)
  define L1 where "L1 = binary64 (ln (2251799813676637 / 2251799813685248))"
  define L2 where "L2 = binary64 (ln (4503599627376593 / 4503599627370496))"
  define T1 where "T1 = binary64 (P * L1)"
  define T2 where "T2 = binary64 (3325908324813111 / 4503599627370496 * L2)"
  have val: "klBern_rd binary64 P Q = binary64 (T1 + T2)"
    unfolding klBern_rd_unclamped [OF cl] A SP SQ B T1_def T2_def L1_def L2_def
    by (rule refl)
  define lo1 :: real where "lo1 = 1 - 1 / (2251799813676637 / 2251799813685248)"
  define hi1 :: real where "hi1 = 2251799813676637 / 2251799813685248 - 1"
  define lo2 :: real where "lo2 = 1 - 1 / (4503599627376593 / 4503599627370496)"
  define hi2 :: real where "hi2 = 4503599627376593 / 4503599627370496 - 1"
  have l1: "lo1 * (1 + 1 / 2 ^ 53) \<le> L1" "L1 \<le> hi1 * (1 - 1 / 2 ^ 53)"
    unfolding L1_def lo1_def hi1_def
    by (rule b64_neg [OF ln_bounds]; simp)+
  have l2: "lo2 * (1 - 1 / 2 ^ 53) \<le> L2" "L2 \<le> hi2 * (1 + 1 / 2 ^ 53)"
    unfolding L2_def lo2_def hi2_def
    by (rule b64_pos [OF ln_bounds]; simp)+
  have x1: "P * (lo1 * (1 + 1 / 2 ^ 53)) \<le> P * L1" "P * L1 \<le> P * (hi1 * (1 - 1 / 2 ^ 53))"
    using l1 by (simp_all add: Pv)
  have x2: "3325908324813111 / 4503599627370496 * (lo2 * (1 - 1 / 2 ^ 53))
              \<le> 3325908324813111 / 4503599627370496 * L2"
    "3325908324813111 / 4503599627370496 * L2
              \<le> 3325908324813111 / 4503599627370496 * (hi2 * (1 + 1 / 2 ^ 53))"
    using l2 by simp_all
  have t1: "P * (lo1 * (1 + 1 / 2 ^ 53)) * (1 + 1 / 2 ^ 53) \<le> T1"
    "T1 \<le> P * (hi1 * (1 - 1 / 2 ^ 53)) * (1 - 1 / 2 ^ 53)"
    unfolding T1_def
    by (rule b64_neg [OF x1]; simp add: Pv lo1_def hi1_def)+
  have t2: "3325908324813111 / 4503599627370496 * (lo2 * (1 - 1 / 2 ^ 53)) * (1 - 1 / 2 ^ 53) \<le> T2"
    "T2 \<le> 3325908324813111 / 4503599627370496 * (hi2 * (1 + 1 / 2 ^ 53)) * (1 + 1 / 2 ^ 53)"
    unfolding T2_def
    by (rule b64_pos [OF x2]; simp add: lo2_def hi2_def)+
  define lo where "lo = P * (lo1 * (1 + 1 / 2 ^ 53)) * (1 + 1 / 2 ^ 53)
      + 3325908324813111 / 4503599627370496 * (lo2 * (1 - 1 / 2 ^ 53)) * (1 - 1 / 2 ^ 53)"
  define hi where "hi = P * (hi1 * (1 - 1 / 2 ^ 53)) * (1 - 1 / 2 ^ 53)
      + 3325908324813111 / 4503599627370496 * (hi2 * (1 + 1 / 2 ^ 53)) * (1 + 1 / 2 ^ 53)"
  have s: "lo \<le> T1 + T2" "T1 + T2 \<le> hi"
    unfolding lo_def hi_def using t1 t2 by linarith+
  have hn: "hi < 0" by (simp add: hi_def hi1_def hi2_def Pv)
  have r: "binary64 (T1 + T2) \<le> hi * (1 - 1 / 2 ^ 53)"
    by (rule b64_neg [OF s hn]; simp add: hi_def hi1_def hi2_def lo_def lo1_def lo2_def Pv)
  have "hi * (1 - 1 / 2 ^ 53) < 0" using hn by (simp add: mult_neg_pos)
  with r val show ?thesis unfolding P_def Q_def by linarith
qed

subsection \<open>GLRT statistic\<close>

text \<open>
  Claim C3. \<open>glrtStat a b = 0\<close> whenever \<open>a\<close> or \<open>b\<close> has fewer than one pull, or whenever
  the mean of \<open>a\<close> is at most the mean of \<open>b\<close>; otherwise it is
  \<open>pulls a \<cdot> KL(mean a, mean b) + pulls b \<cdot> KL(mean b, mean a)\<close> with the clamped Bernoulli
  KL divergence. The hypothesis \<open>successes \<le> pulls\<close> is not needed.
\<close>

theorem glrtStat_cases:
  "((pulls a < 1 \<or> pulls b < 1) \<longrightarrow> glrtStat a b = 0)
   \<and> (mean a \<le> mean b \<longrightarrow> glrtStat a b = 0)
   \<and> (\<not> (pulls a < 1 \<or> pulls b < 1) \<and> \<not> mean a \<le> mean b \<longrightarrow>
        glrtStat a b = real (pulls a) * klBern (mean a) (mean b)
                     + real (pulls b) * klBern (mean b) (mean a))"
  by (simp add: glrtStat_def)

theorem glrtStat_cases_witness:
  "glrtStat \<lparr>idx = 0, trueRate = 1 / 2, pulls = 0, successes = 0\<rparr>
            \<lparr>idx = 1, trueRate = 1 / 2, pulls = 3, successes = 1\<rparr> = 0
   \<and> glrtStat \<lparr>idx = 0, trueRate = 1 / 2, pulls = 4, successes = 1\<rparr>
              \<lparr>idx = 1, trueRate = 1 / 2, pulls = 2, successes = 1\<rparr> = 0
   \<and> glrtStat \<lparr>idx = 0, trueRate = 1 / 2, pulls = 2, successes = 2\<rparr>
              \<lparr>idx = 1, trueRate = 1 / 2, pulls = 4, successes = 2\<rparr>
       = 2 * klBern 1 (1 / 2) + 4 * klBern (1 / 2) 1"
  using glrtStat_cases [of "\<lparr>idx = 0, trueRate = 1 / 2, pulls = 0, successes = 0\<rparr>"
                           "\<lparr>idx = 1, trueRate = 1 / 2, pulls = 3, successes = 1\<rparr>"]
        glrtStat_cases [of "\<lparr>idx = 0, trueRate = 1 / 2, pulls = 4, successes = 1\<rparr>"
                           "\<lparr>idx = 1, trueRate = 1 / 2, pulls = 2, successes = 1\<rparr>"]
        glrtStat_cases [of "\<lparr>idx = 0, trueRate = 1 / 2, pulls = 2, successes = 2\<rparr>"
                           "\<lparr>idx = 1, trueRate = 1 / 2, pulls = 4, successes = 2\<rparr>"]
  by (simp add: mean_def)

subsection \<open>Stopping threshold\<close>

lemma threshold_arg_pos:
  fixes t :: real
  assumes "0 \<le> t"
  shows "0 < ln (t + exp 1) + 1"
proof -
  have "exp 1 \<le> t + exp (1::real)" using assms by simp
  then have "ln (exp 1) \<le> ln (t + exp (1::real))"
    by (subst ln_le_cancel_iff) (simp_all add: add_nonneg_pos assms)
  then show ?thesis by simp
qed

text \<open>
  Claim C6. At a fixed \<open>t \<ge> 0\<close> and for tolerances \<open>0 < d1 \<le> d2 \<le> 1\<close>, the threshold
  \<open>ln ((ln (t + e) + 1) / d)\<close> at \<open>d2\<close> is at most its value at \<open>d1\<close>.
\<close>

theorem threshold_antimono_delta:
  assumes "0 \<le> t" and "0 < d1" and "d1 \<le> d2" and "d2 \<le> 1"
  shows "thresholdAt d2 t \<le> thresholdAt d1 t"
proof -
  let ?c = "ln (t + exp 1) + 1"
  have c: "0 < ?c" using assms(1) by (rule threshold_arg_pos)
  have "?c / d2 \<le> ?c / d1"
    using c assms by (intro divide_left_mono) simp_all
  moreover have "0 < ?c / d2" using c assms by simp
  ultimately show ?thesis
    unfolding thresholdAt_def by (subst ln_le_cancel_iff) (use c assms in simp_all)
qed

theorem threshold_antimono_delta_witness:
  "(0::real) \<le> 100 \<and> (0::real) < 1 / 100 \<and> (1::real) / 100 \<le> 1 / 10 \<and> (1::real) / 10 \<le> 1
   \<and> thresholdAt (1 / 10) 100 \<le> thresholdAt (1 / 100) 100"
  using threshold_antimono_delta [of 100 "1 / 100" "1 / 10"] by simp

subsection \<open>Totals and minima\<close>

lemma totalPulls_sum_list: "totalPulls arms = sum_list (map pulls arms)"
proof -
  have "foldl (\<lambda>s a. s + pulls a) n arms = n + sum_list (map pulls arms)" for n
    by (induction arms arbitrary: n) simp_all
  then show ?thesis by (simp add: totalPulls_def)
qed

lemma foldl_min_less:
  fixes m :: enat
  shows "foldl min m xs < k \<longleftrightarrow> m < k \<or> (\<exists>x \<in> set xs. x < k)"
  by (induction xs arbitrary: m) (auto simp: min_less_iff_disj)

lemma minPulls_less: "minPulls arms < enat n \<longleftrightarrow> (\<exists>a \<in> set arms. pulls a < n)"
  by (auto simp: minPulls_def foldl_min_less)

lemma minPulls_less_numeral:
  "minPulls arms < numeral k \<longleftrightarrow> (\<exists>a \<in> set arms. pulls a < numeral k)"
  using minPulls_less [of arms "numeral k"] by (simp add: numeral_eq_enat)

lemma Min_pulls_less:
  assumes "arms \<noteq> []"
  shows "Min (pulls ` set arms) < n \<longleftrightarrow> (\<exists>a \<in> set arms. pulls a < n)"
  using assms by (subst Min_less_iff) auto

subsection \<open>Best arm\<close>

lemma best_upto_Suc:
  assumes "k < length arms"
  shows "best_upto arms (Suc k) = best_step arms (best_upto arms k) (arms ! k, k)"
proof -
  have "zip (take (Suc k) arms) [0..<Suc k] = zip (take k arms) [0..<k] @ [(arms ! k, k)]"
    using assms by (simp add: take_Suc_conv_app_nth)
  then show ?thesis by (simp add: best_upto_def)
qed

lemma best_upto_inv:
  assumes "k \<le> length arms"
  shows "(k = 0 \<and> best_upto arms k = 0)
       \<or> (best_upto arms k < k
          \<and> (\<forall>j < k. mean (arms ! j) \<le> mean (arms ! best_upto arms k))
          \<and> (\<forall>j < best_upto arms k. mean (arms ! j) < mean (arms ! best_upto arms k)))"
  using assms
proof (induction k)
  case 0
  then show ?case by (simp add: best_upto_def)
next
  case (Suc k)
  then have k: "k < length arms" by simp
  let ?b = "best_upto arms k"
  from Suc.IH k consider (zero) "k = 0" "?b = 0"
    | (pos) "?b < k" "\<forall>j < k. mean (arms ! j) \<le> mean (arms ! ?b)"
            "\<forall>j < ?b. mean (arms ! j) < mean (arms ! ?b)"
    by auto
  then show ?case
  proof cases
    case zero
    have "best_upto arms (Suc k) = best_step arms (best_upto arms k) (arms ! k, k)"
      by (rule best_upto_Suc [OF k])
    then have "best_upto arms (Suc k) = 0"
      using zero by (simp add: best_step_def)
    then show ?thesis using zero by simp
  next
    case pos
    show ?thesis
    proof (cases "mean (arms ! k) > mean (arms ! ?b)")
      case True
      then have eq: "best_upto arms (Suc k) = k"
        by (simp add: best_upto_Suc [OF k] best_step_def)
      have "\<forall>j < Suc k. mean (arms ! j) \<le> mean (arms ! k)"
        using pos(2) True by (auto simp: less_Suc_eq)
      moreover have "\<forall>j < k. mean (arms ! j) < mean (arms ! k)"
        using pos(2) True by (meson le_less_trans)
      ultimately show ?thesis unfolding eq by simp
    next
      case False
      then have eq: "best_upto arms (Suc k) = ?b"
        by (simp add: best_upto_Suc [OF k] best_step_def)
      have "\<forall>j < Suc k. mean (arms ! j) \<le> mean (arms ! ?b)"
        using pos(2) False by (auto simp: less_Suc_eq)
      then show ?thesis unfolding eq using pos by auto
    qed
  qed
qed

lemma bestArmIdx_best_upto: "bestArmIdx arms = best_upto arms (length arms)"
  by (simp add: bestArmIdx_def best_upto_def best_step_def)

lemma bestArmIdx_first_max:
  assumes "arms \<noteq> []"
  shows "first_max_mean arms (bestArmIdx arms)"
  using best_upto_inv [of "length arms" arms] assms
  by (simp add: bestArmIdx_best_upto first_max_mean_def)

lemma first_max_mean_unique:
  assumes "first_max_mean arms b" and "first_max_mean arms c"
  shows "b = c"
proof (rule ccontr)
  assume "b \<noteq> c"
  then consider "b < c" | "c < b" by linarith
  then show False
  proof cases
    case 1
    then have "mean (arms ! b) < mean (arms ! c)" using assms(2) by (simp add: first_max_mean_def)
    moreover have "mean (arms ! c) \<le> mean (arms ! b)" using assms by (simp add: first_max_mean_def)
    ultimately show False by simp
  next
    case 2
    then have "mean (arms ! c) < mean (arms ! b)" using assms(1) by (simp add: first_max_mean_def)
    moreover have "mean (arms ! b) \<le> mean (arms ! c)" using assms by (simp add: first_max_mean_def)
    ultimately show False by simp
  qed
qed

text \<open>
  Claim C10. For every non-empty list of arms, \<^verbatim>\<open>bestArmIdx\<close> returns the lowest index among
  the arms of maximal mean estimate: its result is in range, no arm has a larger mean, and
  every arm at a smaller index has a strictly smaller mean; it is the only such index.
\<close>

theorem bestArmIdx_lowest_maximal:
  assumes "arms \<noteq> []"
  shows "first_max_mean arms (bestArmIdx arms)
       \<and> (\<forall>b. first_max_mean arms b \<longrightarrow> bestArmIdx arms = b)"
  using bestArmIdx_first_max [OF assms] first_max_mean_unique by blast

theorem bestArmIdx_lowest_maximal_witness:
  "[\<lparr>idx = 0, trueRate = 1 / 2, pulls = 4, successes = 2\<rparr>,
    \<lparr>idx = 1, trueRate = 1 / 2, pulls = 4, successes = 3\<rparr>,
    \<lparr>idx = 2, trueRate = 1 / 2, pulls = 8, successes = 6\<rparr>] \<noteq> []
   \<and> first_max_mean
        [\<lparr>idx = 0, trueRate = 1 / 2, pulls = 4, successes = 2\<rparr>,
         \<lparr>idx = 1, trueRate = 1 / 2, pulls = 4, successes = 3\<rparr>,
         \<lparr>idx = 2, trueRate = 1 / 2, pulls = 8, successes = 6\<rparr>] 1
   \<and> bestArmIdx
        [\<lparr>idx = 0, trueRate = 1 / 2, pulls = 4, successes = 2\<rparr>,
         \<lparr>idx = 1, trueRate = 1 / 2, pulls = 4, successes = 3\<rparr>,
         \<lparr>idx = 2, trueRate = 1 / 2, pulls = 8, successes = 6\<rparr>] = 1"
proof -
  let ?arms = "[\<lparr>idx = 0, trueRate = 1 / 2, pulls = 4, successes = 2\<rparr>,
    \<lparr>idx = 1, trueRate = 1 / 2, pulls = 4, successes = 3\<rparr>,
    \<lparr>idx = 2, trueRate = 1 / 2, pulls = 8, successes = 6\<rparr>]"
  have ne: "?arms \<noteq> []" by simp
  have fm: "first_max_mean ?arms 1"
    by (simp add: first_max_mean_def mean_def numeral_3_eq_3 less_Suc_eq)
  from bestArmIdx_lowest_maximal [OF ne] fm have "bestArmIdx ?arms = 1" by blast
  with ne fm show ?thesis by blast
qed

subsection \<open>Stopping rule\<close>

lemma shouldStop_loop_iff:
  "shouldStop_loop arms best thresh i \<longleftrightarrow>
     (\<forall>j. i \<le> j \<and> j < length arms \<and> j \<noteq> best \<longrightarrow> thresh \<le> glrtStat (arms ! best) (arms ! j))"
proof (induction arms best thresh i rule: shouldStop_loop.induct)
  case (1 arms best thresh i)
  show ?case
  proof (cases "i < length arms")
    case False
    then show ?thesis by (subst shouldStop_loop.simps) simp
  next
    case True
    have split: "(\<forall>j. i \<le> j \<and> j < length arms \<and> j \<noteq> best \<longrightarrow> P j) \<longleftrightarrow>
                 (i \<noteq> best \<longrightarrow> P i) \<and> (\<forall>j. Suc i \<le> j \<and> j < length arms \<and> j \<noteq> best \<longrightarrow> P j)" for P
    proof -
      have "i \<le> j \<longleftrightarrow> j = i \<or> Suc i \<le> j" for j by auto
      then show ?thesis using True by auto
    qed
    show ?thesis
    proof (cases "i = best")
      case eq: True
      show ?thesis
        using "1.IH"(1) [OF True eq] True eq
        by (subst shouldStop_loop.simps, subst split) simp
    next
      case ne: False
      show ?thesis
      proof (cases "glrtStat (arms ! best) (arms ! i) < thresh")
        case lt: True
        then show ?thesis using True ne
          by (subst shouldStop_loop.simps, subst split) simp
      next
        case ge: False
        show ?thesis
          using "1.IH"(2) [OF True ne ge] True ne ge
          by (subst shouldStop_loop.simps, subst split) simp
      qed
    qed
  qed
qed

text \<open>
  Claim C1. For every non-empty list of arms, \<^verbatim>\<open>shouldStop\<close> is false when the minimum
  per-arm pull count is below 12; when it is at least 12, \<^verbatim>\<open>shouldStop\<close> is true if and only
  if, for the best arm \<open>b\<close> (lowest index of maximal mean), every other arm's GLRT statistic
  against \<open>b\<close> is at or above \<open>ln ((ln (t + e) + 1) / \<delta>)\<close> with \<open>\<delta> = 0.05\<close> and \<open>t\<close> the total
  number of pulls. The hypothesis \<open>successes \<le> pulls\<close> is not needed.
\<close>

theorem shouldStop_spec:
  assumes "arms \<noteq> []"
  shows "(Min (pulls ` set arms) < 12 \<longrightarrow> \<not> shouldStop arms)
       \<and> (12 \<le> Min (pulls ` set arms) \<longrightarrow>
            (shouldStop arms \<longleftrightarrow>
               (\<forall>b. first_max_mean arms b \<longrightarrow>
                  (\<forall>i < length arms. i \<noteq> b \<longrightarrow>
                     ln ((ln (real (sum_list (map pulls arms)) + exp 1) + 1) / (5 / 100))
                       \<le> glrtStat (arms ! b) (arms ! i)))))"
proof -
  have m: "minPulls arms < 12 \<longleftrightarrow> Min (pulls ` set arms) < 12"
    using minPulls_less_numeral [of arms] Min_pulls_less [OF assms] by simp
  have b: "first_max_mean arms b \<longleftrightarrow> b = bestArmIdx arms" for b
    using bestArmIdx_first_max [OF assms] first_max_mean_unique by blast
  show ?thesis
    by (auto simp add: shouldStop_def Let_def m b shouldStop_loop_iff stoppingThreshold_def
        thresholdAt_def DELTA_def totalPulls_sum_list not_less)
qed

lemma stoppingThreshold_pos:
  assumes "0 \<le> t"
  shows "0 < stoppingThreshold t"
proof -
  have "exp 1 \<le> t + exp (1::real)" using assms by simp
  then have "ln (exp 1) \<le> ln (t + exp (1::real))"
    by (subst ln_le_cancel_iff) (simp_all add: add_nonneg_pos assms)
  then have "1 \<le> ln (t + exp 1)" by simp
  then have "1 < (ln (t + exp 1) + 1) / DELTA" by (simp add: DELTA_def)
  then show ?thesis by (simp add: stoppingThreshold_def thresholdAt_def)
qed

theorem shouldStop_spec_witness:
  "\<not> shouldStop [\<lparr>idx = 0, trueRate = 1 / 2, pulls = 20, successes = 10\<rparr>,
                  \<lparr>idx = 1, trueRate = 1 / 2, pulls = 11, successes = 2\<rparr>]
   \<and> shouldStop [\<lparr>idx = 0, trueRate = 1 / 2, pulls = 12, successes = 7\<rparr>]
   \<and> \<not> shouldStop [\<lparr>idx = 0, trueRate = 1 / 2, pulls = 20, successes = 10\<rparr>,
                    \<lparr>idx = 1, trueRate = 1 / 2, pulls = 40, successes = 20\<rparr>]"
proof -
  let ?a = "[\<lparr>idx = 0, trueRate = 1 / 2, pulls = 20, successes = 10\<rparr>,
             \<lparr>idx = 1, trueRate = 1 / 2, pulls = 11, successes = 2\<rparr>]"
  let ?b = "[\<lparr>idx = 0, trueRate = 1 / 2, pulls = 12, successes = 7\<rparr>]"
  let ?c = "[\<lparr>idx = 0, trueRate = 1 / 2, pulls = 20, successes = 10\<rparr>,
             \<lparr>idx = 1, trueRate = 1 / 2, pulls = 40, successes = 20\<rparr>]"
  have "Min (pulls ` set ?a) < 12" by simp
  with shouldStop_spec [of ?a] have 1: "\<not> shouldStop ?a" by simp
  have "12 \<le> Min (pulls ` set ?b)" by simp
  with shouldStop_spec [of ?b] have 2: "shouldStop ?b"
    by (simp add: first_max_mean_def)
  have m: "12 \<le> Min (pulls ` set ?c)" by simp
  have f: "first_max_mean ?c 0" by (simp add: first_max_mean_def mean_def less_Suc_eq)
  have g: "glrtStat (?c ! 0) (?c ! 1) = 0" by (simp add: glrtStat_def mean_def)
  have "0 < stoppingThreshold (real (sum_list (map pulls ?c)))"
    by (rule stoppingThreshold_pos) simp
  then have th: "\<not> ln ((ln (real (sum_list (map pulls ?c)) + exp 1) + 1) / (5 / 100))
                    \<le> glrtStat (?c ! 0) (?c ! 1)"
    unfolding g by (simp add: stoppingThreshold_def thresholdAt_def DELTA_def)
  have l: "(1::nat) < length ?c" "(1::nat) \<noteq> 0" by simp_all
  have 3: "\<not> shouldStop ?c"
  proof
    assume "shouldStop ?c"
    with shouldStop_spec [of ?c] m have "\<forall>b. first_max_mean ?c b \<longrightarrow>
                  (\<forall>i < length ?c. i \<noteq> b \<longrightarrow>
                     ln ((ln (real (sum_list (map pulls ?c)) + exp 1) + 1) / (5 / 100))
                       \<le> glrtStat (?c ! b) (?c ! i))" by simp
    with f l have "ln ((ln (real (sum_list (map pulls ?c)) + exp 1) + 1) / (5 / 100))
                       \<le> glrtStat (?c ! 0) (?c ! 1)" by blast
    with th show False by blast
  qed
  from 1 2 3 show ?thesis by blast
qed

subsection \<open>Arm selection\<close>

lemma selectArm_loop_Some:
  "selectArm_loop r cum i xs = Some k \<Longrightarrow>
     \<exists>j < length xs. k = i + j \<and> r \<le> foldl (+) cum (take (Suc j) xs)
       \<and> (\<forall>j' < j. \<not> r \<le> foldl (+) cum (take (Suc j') xs))"
proof (induction xs arbitrary: cum i)
  case Nil
  then show ?case by simp
next
  case (Cons a rest)
  show ?case
  proof (cases "r \<le> cum + a")
    case True
    with Cons.prems have "k = i" by simp
    with True show ?thesis by (intro exI [of _ 0]) simp
  next
    case False
    with Cons.prems have "selectArm_loop r (cum + a) (Suc i) rest = Some k" by simp
    from Cons.IH [OF this] obtain j where j: "j < length rest" "k = Suc i + j"
      "r \<le> foldl (+) (cum + a) (take (Suc j) rest)"
      "\<forall>j' < j. \<not> r \<le> foldl (+) (cum + a) (take (Suc j') rest)" by blast
    have "\<forall>j' < Suc j. \<not> r \<le> foldl (+) cum (take (Suc j') (a # rest))"
    proof (intro allI impI)
      fix j' assume "j' < Suc j"
      then show "\<not> r \<le> foldl (+) cum (take (Suc j') (a # rest))"
        using False j(4) by (cases j') simp_all
    qed
    with j(1-3) show ?thesis by (intro exI [of _ "Suc j"]) simp
  qed
qed

lemma selectArm_loop_None:
  "selectArm_loop r cum i xs = None \<Longrightarrow>
     \<forall>j < length xs. \<not> r \<le> foldl (+) cum (take (Suc j) xs)"
proof (induction xs arbitrary: cum i)
  case Nil
  then show ?case by simp
next
  case (Cons a rest)
  from Cons.prems have na: "\<not> r \<le> cum + a"
    and rest: "selectArm_loop r (cum + a) (Suc i) rest = None"
    by (simp_all add: Let_def split: if_splits)
  show ?case
  proof (intro allI impI)
    fix j assume "j < length (a # rest)"
    then show "\<not> r \<le> foldl (+) cum (take (Suc j) (a # rest))"
      using na Cons.IH [OF rest] by (cases j) simp_all
  qed
qed

text \<open>
  Claim C7. For every non-empty allocation and every draw \<open>r\<close>, \<^verbatim>\<open>selectArm\<close> returns the first
  index whose cumulative weight is at or above \<open>r\<close>, and the last index when no cumulative
  weight reaches \<open>r\<close>; its result is always an index in \<open>[0, K)\<close>. The loop of the model
  reads the allocation only at the positions it recurses over, so no read is out of
  bounds. The restriction of \<open>r\<close> to \<open>[0, 1)\<close> is not needed.
\<close>

theorem selectArm_spec:
  assumes "alloc \<noteq> []"
  shows "0 \<le> selectArm r alloc \<and> selectArm r alloc < int (length alloc)
       \<and> (\<forall>i < length alloc.
             r \<le> cumWeight alloc i \<and> (\<forall>j < i. \<not> r \<le> cumWeight alloc j)
             \<longrightarrow> selectArm r alloc = int i)
       \<and> ((\<forall>i < length alloc. \<not> r \<le> cumWeight alloc i)
             \<longrightarrow> selectArm r alloc = int (length alloc) - 1)"
proof (cases "selectArm_loop r 0 0 alloc")
  case None
  then have sel: "selectArm r alloc = int (length alloc) - 1"
    by (simp add: selectArm_def)
  have no: "\<forall>j < length alloc. \<not> r \<le> cumWeight alloc j"
    using selectArm_loop_None [OF None] by (simp add: cumWeight_def)
  have len: "0 < length alloc" using assms by simp
  have 1: "0 \<le> selectArm r alloc" "selectArm r alloc < int (length alloc)"
    unfolding sel using len by simp_all
  have 2: "\<forall>i < length alloc.
             r \<le> cumWeight alloc i \<and> (\<forall>j < i. \<not> r \<le> cumWeight alloc j)
             \<longrightarrow> selectArm r alloc = int i"
    using no by blast
  show ?thesis using 1 2 sel by blast
next
  case (Some k)
  then have sel: "selectArm r alloc = int k"
    by (simp add: selectArm_def)
  from selectArm_loop_Some [OF Some]
  have k: "k < length alloc" "r \<le> cumWeight alloc k" "\<forall>j < k. \<not> r \<le> cumWeight alloc j"
    by (simp_all add: cumWeight_def)
  have 1: "0 \<le> selectArm r alloc" "selectArm r alloc < int (length alloc)"
    unfolding sel using k(1) by simp_all
  have uniq: "i = k"
    if "i < length alloc" "r \<le> cumWeight alloc i" "\<forall>j < i. \<not> r \<le> cumWeight alloc j" for i
  proof (rule ccontr)
    assume "i \<noteq> k"
    then consider "i < k" | "k < i" by linarith
    then show False using that k by cases blast+
  qed
  have 2: "\<forall>i < length alloc.
             r \<le> cumWeight alloc i \<and> (\<forall>j < i. \<not> r \<le> cumWeight alloc j)
             \<longrightarrow> selectArm r alloc = int i"
    unfolding sel using uniq by blast
  have 3: "(\<forall>i < length alloc. \<not> r \<le> cumWeight alloc i)
             \<longrightarrow> selectArm r alloc = int (length alloc) - 1"
    using k(1,2) by blast
  show ?thesis using 1 2 3 by blast
qed

theorem selectArm_spec_witness:
  "selectArm (7 / 10) [1 / 4, 1 / 4, 1 / 2] = 2 \<and> selectArm (99 / 100) [1 / 4, 1 / 4] = 1"
proof -
  have c1: "(7::real) / 10 \<le> cumWeight [1 / 4, 1 / 4, 1 / 2] 2
            \<and> (\<forall>j < 2. \<not> (7::real) / 10 \<le> cumWeight [1 / 4, 1 / 4, 1 / 2] j)"
    by (simp add: cumWeight_def numeral_2_eq_2 less_Suc_eq)
  have c2: "\<forall>i < length [1 / 4, 1 / 4 :: real]. \<not> (99::real) / 100 \<le> cumWeight [1 / 4, 1 / 4] i"
    by (simp add: cumWeight_def less_Suc_eq)
  have ne: "[1 / 4, 1 / 4, 1 / 2 :: real] \<noteq> []" "[1 / 4, 1 / 4 :: real] \<noteq> []"
    by simp_all
  have l: "2 < length [1 / 4, 1 / 4, 1 / 2 :: real]" by simp
  have "selectArm (7 / 10) [1 / 4, 1 / 4, 1 / 2] = int 2"
    using selectArm_spec [OF ne(1), of "7 / 10"] c1 l by blast
  moreover have "selectArm (99 / 100) [1 / 4, 1 / 4] = int (length [1 / 4, 1 / 4 :: real]) - 1"
    using selectArm_spec [OF ne(2), of "99 / 100"] c2 by blast
  ultimately show ?thesis by simp
qed

subsection \<open>Allocation\<close>

lemma computeAdaptiveAlloc_unfold:
  "computeAdaptiveAlloc arms =
     (if minPulls arms < 6 then Some (uniformAlloc arms)
      else if length arms \<le> bestArmIdx arms then None
      else Some (map (\<lambda>v. num v / weightTotal arms (bestArmIdx arms))
                   (finalWeights arms (bestArmIdx arms))))"
  unfolding computeAdaptiveAlloc_def weightTotal_def finalWeights_def
    othersSum_def rawWeights_def gapWeight_def Let_def
  by simp

lemma length_rawWeights [simp]: "length (rawWeights arms best) = length arms"
  by (simp add: rawWeights_def)

lemma nth_rawWeights:
  "i < length arms \<Longrightarrow>
     rawWeights arms best ! i
       = (if i = best then None else Some (gapWeight (mean (arms ! best)) (arms ! i)))"
  by (simp add: rawWeights_def)

lemma gapWeight_pos: "0 < gapWeight bm a"
  by (simp add: gapWeight_def Let_def max_def)

lemma gapWeight_ge_1:
  assumes "bm - mean a \<le> 1"
  shows "1 \<le> gapWeight bm a"
proof -
  let ?g = "max (bm - mean a) (5 / 1000)"
  have g: "0 < ?g" "?g \<le> 1" using assms by simp_all
  then have "?g * ?g \<le> 1 * 1" by (intro mult_mono) simp_all
  moreover have "0 < ?g * ?g" using g by simp
  ultimately have "1 \<le> 1 / (?g * ?g)" by (simp add: le_divide_eq)
  then show ?thesis by (simp add: gapWeight_def Let_def)
qed

lemma foldl_num_sum: "foldl (\<lambda>s v. s + num v) s0 ws = s0 + sum_list (map num ws)"
  by (induction ws arbitrary: s0) simp_all

lemma foldl_skip_sum:
  assumes "\<forall>(v, i) \<in> set vis. i = best \<longrightarrow> num v = 0"
  shows "foldl (\<lambda>s (v, i). if i = best then s else s + num v) s0 vis
           = s0 + sum_list (map (\<lambda>(v, i). num v) vis)"
  using assms by (induction vis arbitrary: s0) auto

lemma othersSum_sum_list: "othersSum arms best = sum_list (map num (rawWeights arms best))"
proof -
  let ?w = "rawWeights arms best"
  have z: "\<forall>(v, i) \<in> set (zip ?w [0..<length ?w]). i = best \<longrightarrow> num v = 0"
    by (auto simp: in_set_zip nth_rawWeights num_def)
  have "map (\<lambda>(v, i). num v) (zip ?w [0..<length ?w]) = map num ?w"
    by (rule nth_equalityI) simp_all
  then show ?thesis
    unfolding othersSum_def using foldl_skip_sum [OF z, of 0] by simp
qed

lemma num_rawWeights_nonneg: "x \<in> set (map num (rawWeights arms best)) \<Longrightarrow> 0 \<le> x"
  by (auto simp: rawWeights_def num_def in_set_zip less_imp_le [OF gapWeight_pos])

lemma othersSum_nonneg: "0 \<le> othersSum arms best"
  unfolding othersSum_sum_list by (rule sum_list_nonneg) (rule num_rawWeights_nonneg)

lemma sum_list_update_real:
  fixes xs :: "real list"
  shows "k < length xs \<Longrightarrow> sum_list (xs[k := x]) = sum_list xs - xs ! k + x"
  by (induction xs arbitrary: k) (auto split: nat.splits)

lemma weightTotal_eq:
  assumes "best < length arms"
  shows "weightTotal arms best = othersSum arms best + max (othersSum arms best) (1 / 100)"
proof -
  let ?w = "rawWeights arms best"
  have "map num (finalWeights arms best) = (map num ?w)[best := max (othersSum arms best) (1 / 100)]"
    by (simp add: finalWeights_def map_update num_def)
  moreover have "map num ?w ! best = 0"
    using assms by (simp add: nth_rawWeights num_def)
  ultimately have "sum_list (map num (finalWeights arms best))
      = sum_list (map num ?w) + max (othersSum arms best) (1 / 100)"
    using assms by (simp add: sum_list_update_real)
  then show ?thesis
    by (simp add: weightTotal_def foldl_num_sum othersSum_sum_list)
qed

lemma weightTotal_pos:
  assumes "best < length arms"
  shows "0 < weightTotal arms best"
  using othersSum_nonneg [of arms best] by (simp add: weightTotal_eq [OF assms] max_def)

lemma length_finalWeights [simp]: "length (finalWeights arms best) = length arms"
  by (simp add: finalWeights_def)

lemma nth_finalWeights:
  "i < length arms \<Longrightarrow>
     num (finalWeights arms best ! i)
       = (if i = best then max (othersSum arms best) (1 / 100)
          else gapWeight (mean (arms ! best)) (arms ! i))"
  by (simp add: finalWeights_def nth_list_update nth_rawWeights num_def)

lemma finalWeights_pos:
  assumes "i < length arms"
  shows "0 < num (finalWeights arms best ! i)"
  using othersSum_nonneg [of arms best] gapWeight_pos
  by (simp add: nth_finalWeights [OF assms] max_def)

lemma sum_list_divide_real:
  fixes c :: real
  shows "sum_list (map (\<lambda>v. f v / c) xs) = sum_list (map f xs) / c"
  by (induction xs) (simp_all add: add_divide_distrib)

lemma bestArmIdx_less:
  assumes "arms \<noteq> []"
  shows "bestArmIdx arms < length arms"
  using bestArmIdx_first_max [OF assms] by (simp add: first_max_mean_def)

lemma uniformAlloc_props:
  assumes "arms \<noteq> []"
  shows "length (uniformAlloc arms) = length arms"
    and "\<forall>x \<in> set (uniformAlloc arms). 0 < x"
    and "sum_list (uniformAlloc arms) = 1"
proof -
  have n: "0 < length arms" using assms by simp
  show "length (uniformAlloc arms) = length arms" by (simp add: uniformAlloc_def)
  show "\<forall>x \<in> set (uniformAlloc arms). 0 < x" using n by (auto simp: uniformAlloc_def)
  have "sum_list (uniformAlloc arms) = real (length arms) * (1 / real (length arms))"
    by (simp add: uniformAlloc_def sum_list_triv[of "1 / real (length arms)" arms] map_replicate_const sum_list_replicate)
  then show "sum_list (uniformAlloc arms) = 1" using n by simp
qed

lemma adaptive_props:
  assumes "arms \<noteq> []"
  defines "alloc \<equiv> map (\<lambda>v. num v / weightTotal arms (bestArmIdx arms))
                         (finalWeights arms (bestArmIdx arms))"
  shows "length alloc = length arms"
    and "\<forall>x \<in> set alloc. 0 < x"
    and "sum_list alloc = 1"
proof -
  let ?b = "bestArmIdx arms"
  have b: "?b < length arms" using assms(1) by (rule bestArmIdx_less)
  have tp: "0 < weightTotal arms ?b" using b by (rule weightTotal_pos)
  show "length alloc = length arms" by (simp add: alloc_def)
  show "\<forall>x \<in> set alloc. 0 < x"
  proof
    fix x assume "x \<in> set alloc"
    then obtain i where i: "i < length arms" "x = num (finalWeights arms ?b ! i) / weightTotal arms ?b"
      by (auto simp: alloc_def in_set_conv_nth)
    show "0 < x" unfolding i(2) using finalWeights_pos [OF i(1)] tp by simp
  qed
  have "sum_list alloc = sum_list (map num (finalWeights arms ?b)) / weightTotal arms ?b"
    unfolding alloc_def by (rule sum_list_divide_real)
  also have "sum_list (map num (finalWeights arms ?b)) = weightTotal arms ?b"
    by (simp add: weightTotal_def foldl_num_sum)
  finally show "sum_list alloc = 1" using tp by simp
qed

lemma singleton_sum_one:
  fixes alloc :: "real list"
  assumes "length alloc = 1" and "sum_list alloc = 1"
  shows "alloc = [1]"
  using assms by (cases alloc) auto

text \<open>
  Claim C2. For every non-empty list of arms and in both modes, the allocation is computed
  (no exception), has length \<open>K\<close>, has only strictly positive entries and sums to \<open>1\<close>
  (exactly, in real arithmetic); with \<open>K = 1\<close> it is \<open>[1]\<close>. The hypothesis
  \<open>successes \<le> pulls\<close> is not needed.
\<close>

theorem allocation_simplex:
  assumes "arms \<noteq> []"
  shows "\<exists>alloc. currentAlloc m arms = Some alloc
           \<and> length alloc = length arms
           \<and> (\<forall>x \<in> set alloc. 0 < x)
           \<and> sum_list alloc = 1
           \<and> (length arms = 1 \<longrightarrow> alloc = [1])"
proof -
  have b: "\<not> length arms \<le> bestArmIdx arms"
    using bestArmIdx_less [OF assms] by simp
  have "currentAlloc m arms = Some (uniformAlloc arms)
      \<or> currentAlloc m arms = Some (map (\<lambda>v. num v / weightTotal arms (bestArmIdx arms))
                                      (finalWeights arms (bestArmIdx arms)))"
    using b by (simp add: currentAlloc_def computeAdaptiveAlloc_unfold)
  then obtain alloc where a: "currentAlloc m arms = Some alloc"
    and cases: "alloc = uniformAlloc arms
       \<or> alloc = map (\<lambda>v. num v / weightTotal arms (bestArmIdx arms))
                         (finalWeights arms (bestArmIdx arms))"
    by blast
  have p: "length alloc = length arms" "\<forall>x \<in> set alloc. 0 < x" "sum_list alloc = 1"
    using cases uniformAlloc_props [OF assms] adaptive_props [OF assms] by auto
  have "length arms = 1 \<longrightarrow> alloc = [1]"
    using p singleton_sum_one by auto
  with a p show ?thesis by blast
qed

theorem allocation_simplex_witness:
  "[\<lparr>idx = 0, trueRate = 1 / 2, pulls = 7, successes = 3\<rparr>] \<noteq> []
   \<and> currentAlloc Adaptive [\<lparr>idx = 0, trueRate = 1 / 2, pulls = 7, successes = 3\<rparr>] = Some [1]
   \<and> currentAlloc Uniform [\<lparr>idx = 0, trueRate = 1 / 2, pulls = 7, successes = 3\<rparr>] = Some [1]"
proof -
  let ?arms = "[\<lparr>idx = 0, trueRate = 1 / 2, pulls = 7, successes = 3\<rparr>]"
  have ne: "?arms \<noteq> []" by simp
  have l: "length ?arms = 1" by simp
  from allocation_simplex [OF ne, of Adaptive] l
  have 1: "currentAlloc Adaptive ?arms = Some [1]" by auto
  from allocation_simplex [OF ne, of Uniform] l
  have 2: "currentAlloc Uniform ?arms = Some [1]" by auto
  from ne 1 2 show ?thesis by blast
qed

lemma mean_unit:
  assumes "valid_arm a"
  shows "0 \<le> mean a" and "mean a \<le> 1"
  using assms by (simp_all add: mean_def valid_arm_def)

text \<open>
  Claim C8, as amended. For every list of at least two arms with \<open>successes \<le> pulls\<close> whose minimum pull
  count is at least 6, every challenger's weight \<open>1 / gap\<^sup>2\<close> is at least \<open>1\<close>, and in exact
  arithmetic the adaptive allocation gives the best arm exactly one half.
\<close>

theorem adaptive_best_half:
  assumes "2 \<le> length arms" and "\<forall>a \<in> set arms. valid_arm a"
    and "6 \<le> Min (pulls ` set arms)"
  shows "(\<forall>i < length arms. i \<noteq> bestArmIdx arms \<longrightarrow>
            1 \<le> gapWeight (mean (arms ! bestArmIdx arms)) (arms ! i))
       \<and> (\<exists>alloc. computeAdaptiveAlloc arms = Some alloc
             \<and> alloc ! bestArmIdx arms = 1 / 2)"
proof -
  let ?b = "bestArmIdx arms"
  have ne: "arms \<noteq> []" using assms(1) by auto
  have b: "?b < length arms" using ne by (rule bestArmIdx_less)
  have "minPulls arms < 6 \<longleftrightarrow> Min (pulls ` set arms) < 6"
    using minPulls_less_numeral [of arms] Min_pulls_less [OF ne] by simp
  then have m: "\<not> minPulls arms < 6"
    using assms(3) by simp
  have w: "1 \<le> gapWeight (mean (arms ! ?b)) (arms ! i)" if "i < length arms" for i
  proof (rule gapWeight_ge_1)
    have "mean (arms ! ?b) \<le> 1" using assms(2) b by (intro mean_unit) simp
    moreover have "0 \<le> mean (arms ! i)" using assms(2) that by (intro mean_unit) simp
    ultimately show "mean (arms ! ?b) - mean (arms ! i) \<le> 1" by simp
  qed
  have "\<exists>j. j < length arms \<and> j \<noteq> ?b"
  proof (cases "?b = 0")
    case True
    then have "1 < length arms \<and> 1 \<noteq> ?b" using assms(1) by simp
    then show ?thesis by blast
  next
    case False
    then have "0 < length arms \<and> 0 \<noteq> ?b" using ne by simp
    then show ?thesis by blast
  qed
  then obtain j where j: "j < length arms" "j \<noteq> ?b" by blast
  have "num (rawWeights arms ?b ! j) \<in> set (map num (rawWeights arms ?b))"
    using j(1) by (auto intro!: imageI nth_mem)
  then have "num (rawWeights arms ?b ! j) \<le> sum_list (map num (rawWeights arms ?b))"
    by (rule member_le_sum_list) (rule num_rawWeights_nonneg)
  then have "1 \<le> othersSum arms ?b"
    using w [OF j(1)] j by (simp add: othersSum_sum_list nth_rawWeights num_def)
  then have mx: "max (othersSum arms ?b) (1 / 100) = othersSum arms ?b" "0 < othersSum arms ?b"
    by simp_all
  have tot: "weightTotal arms ?b = 2 * othersSum arms ?b"
    by (simp add: weightTotal_eq [OF b] mx)
  have "computeAdaptiveAlloc arms
          = Some (map (\<lambda>v. num v / weightTotal arms ?b) (finalWeights arms ?b))"
    using m b by (simp add: computeAdaptiveAlloc_unfold)
  moreover have "map (\<lambda>v. num v / weightTotal arms ?b) (finalWeights arms ?b) ! ?b = 1 / 2"
    using b mx by (simp add: nth_finalWeights tot)
  ultimately show ?thesis using w by auto
qed

theorem adaptive_best_half_witness:
  "\<exists>alloc. computeAdaptiveAlloc
      [\<lparr>idx = 0, trueRate = 1 / 2, pulls = 10, successes = 4\<rparr>,
       \<lparr>idx = 1, trueRate = 1 / 2, pulls = 10, successes = 7\<rparr>,
       \<lparr>idx = 2, trueRate = 1 / 2, pulls = 6, successes = 3\<rparr>] = Some alloc
     \<and> alloc ! 1 = 1 / 2"
proof -
  let ?arms = "[\<lparr>idx = 0, trueRate = 1 / 2, pulls = 10, successes = 4\<rparr>,
       \<lparr>idx = 1, trueRate = 1 / 2, pulls = 10, successes = 7\<rparr>,
       \<lparr>idx = 2, trueRate = 1 / 2, pulls = 6, successes = 3\<rparr>]"
  have h1: "2 \<le> length ?arms" by simp
  have h2: "\<forall>a \<in> set ?arms. valid_arm a" by (simp add: valid_arm_def)
  have h3: "6 \<le> Min (pulls ` set ?arms)" by simp
  have b: "bestArmIdx ?arms = 1"
    by (simp add: bestArmIdx_def mean_def upt_conv_Cons)
  from adaptive_best_half [OF h1 h2 h3] show ?thesis
    unfolding b by blast
qed

subsection \<open>Allocation in double-precision arithmetic\<close>

text \<open>At the identity, the rounded definitions are the exact ones.\<close>

lemma mean_rd_exact: "mean_rd (\<lambda>x. x) a = mean a"
  by (simp add: mean_rd_def mean_def)

lemma bestArmIdx_rd_exact: "bestArmIdx_rd (\<lambda>x. x) arms = bestArmIdx arms"
  by (simp add: bestArmIdx_rd_def bestArmIdx_def mean_rd_exact)

lemma computeAdaptiveAlloc_rd_exact:
  "computeAdaptiveAlloc_rd (\<lambda>x. x) arms = computeAdaptiveAlloc arms"
  unfolding computeAdaptiveAlloc_rd_def computeAdaptiveAlloc_def uniformAlloc_def
    bestArmIdx_rd_exact mean_rd_exact
  by simp

lemma bestArmIdx_rd_three:
  assumes "mean_rd rd a0 < mean_rd rd a1" and "\<not> mean_rd rd a1 < mean_rd rd a2"
  shows "bestArmIdx_rd rd [a0, a1, a2] = 1"
  using assms by (simp add: bestArmIdx_rd_def upt_conv_Cons)

lemma computeAdaptiveAlloc_rd_three:
  assumes "6 \<le> pulls a0" and "6 \<le> pulls a1" and "6 \<le> pulls a2"
    and "bestArmIdx_rd rd [a0, a1, a2] = 1"
  shows "computeAdaptiveAlloc_rd rd [a0, a1, a2] =
     (let bestMean = mean_rd rd a1;
          gap0 = max (rd (bestMean - mean_rd rd a0)) (rd (5 / 1000));
          gap2 = max (rd (bestMean - mean_rd rd a2)) (rd (5 / 1000));
          w0 = rd (1 / rd (gap0 * gap0));
          w2 = rd (1 / rd (gap2 * gap2));
          sumOthers = rd (rd (0 + w0) + w2);
          wb = max sumOthers (rd (1 / 100));
          total = rd (rd (rd (0 + w0) + wb) + w2)
      in Some [rd (w0 / total), rd (wb / total), rd (w2 / total)])"
proof -
  have m: "\<not> minPulls [a0, a1, a2] < 6"
    using assms(1-3) by (simp add: minPulls_less_numeral not_less)
  show ?thesis
    unfolding computeAdaptiveAlloc_rd_def assms(4) Let_def
    using m by (simp add: upt_conv_Cons num_def)
qed

text \<open>
  Claim C8 as stated, in the arithmetic of the script: for three valid arms with eight pulls
  each and \<open>0\<close>, \<open>8\<close> and \<open>3\<close> successes, the best arm is the second one, the weights are \<open>1\<close>,
  \<open>3.56\<close> and \<open>2.56\<close>, their rounded total is \<open>7.120000000000001\<close>, and the share of the best arm
  is \<open>0.49999999999999994\<close>, one unit in the last place below one half.
\<close>

theorem adaptive_best_half_binary64_counterexample:
  "valid_arm \<lparr>idx = 0, trueRate = 1 / 2, pulls = 8, successes = 0\<rparr>
   \<and> valid_arm \<lparr>idx = 1, trueRate = 1 / 2, pulls = 8, successes = 8\<rparr>
   \<and> valid_arm \<lparr>idx = 2, trueRate = 1 / 2, pulls = 8, successes = 3\<rparr>
   \<and> 6 \<le> Min (pulls ` set
        [\<lparr>idx = 0, trueRate = 1 / 2, pulls = 8, successes = 0\<rparr>,
         \<lparr>idx = 1, trueRate = 1 / 2, pulls = 8, successes = 8\<rparr>,
         \<lparr>idx = 2, trueRate = 1 / 2, pulls = 8, successes = 3\<rparr>])
   \<and> bestArmIdx_rd binary64
        [\<lparr>idx = 0, trueRate = 1 / 2, pulls = 8, successes = 0\<rparr>,
         \<lparr>idx = 1, trueRate = 1 / 2, pulls = 8, successes = 8\<rparr>,
         \<lparr>idx = 2, trueRate = 1 / 2, pulls = 8, successes = 3\<rparr>] = 1
   \<and> computeAdaptiveAlloc_rd binary64
        [\<lparr>idx = 0, trueRate = 1 / 2, pulls = 8, successes = 0\<rparr>,
         \<lparr>idx = 1, trueRate = 1 / 2, pulls = 8, successes = 8\<rparr>,
         \<lparr>idx = 2, trueRate = 1 / 2, pulls = 8, successes = 3\<rparr>]
       = Some [5060224300416287 / 36028797018963968,
               9007199254740991 / 18014398509481984,
               6477087104532847 / 18014398509481984]
   \<and> (9007199254740991 / 18014398509481984 :: real) \<noteq> 1 / 2"
proof -
  define a0 where "a0 = \<lparr>idx = 0, trueRate = 1 / 2, pulls = 8, successes = 0\<rparr>"
  define a1 where "a1 = \<lparr>idx = 1, trueRate = 1 / 2, pulls = 8, successes = 8\<rparr>"
  define a2 where "a2 = \<lparr>idx = 2, trueRate = 1 / 2, pulls = 8, successes = 3\<rparr>"
  have v: "valid_arm a0" "valid_arm a1" "valid_arm a2"
    by (simp_all add: valid_arm_def a0_def a1_def a2_def)
  have mn: "6 \<le> Min (pulls ` set [a0, a1, a2])"
    by (simp add: a0_def a1_def a2_def)
  have p: "6 \<le> pulls a0" "6 \<le> pulls a1" "6 \<le> pulls a2"
    by (simp_all add: a0_def a1_def a2_def)
  have m0: "mean_rd binary64 a0 = 0"
    by (simp add: mean_rd_def a0_def binary64_def)
  have m1: "mean_rd binary64 a1 = 1"
    by (simp add: mean_rd_def a1_def b64)
  have m2: "mean_rd binary64 a2 = 3 / 8"
    by (simp add: mean_rd_def a2_def b64)
  have b: "bestArmIdx_rd binary64 [a0, a1, a2] = 1"
    by (rule bestArmIdx_rd_three) (simp_all add: m0 m1 m2)
  have g0: "max (binary64 (1 - 0)) (binary64 (5 / 1000)) = 1"
    by (simp add: b64)
  have g2: "max (binary64 (1 - 3 / 8)) (binary64 (5 / 1000)) = 5 / 8"
    by (simp add: b64)
  have w0: "binary64 (1 / binary64 (1 * 1)) = 1"
    by (simp add: b64)
  have w2: "binary64 (1 / binary64 (5 / 8 * (5 / 8))) = 5764607523034235 / 2251799813685248"
    by (simp add: b64)
  have so: "binary64 (binary64 (0 + 1) + 5764607523034235 / 2251799813685248)
              = 8016407336719483 / 2251799813685248"
    by (simp add: b64)
  have wb: "max (8016407336719483 / 2251799813685248) (binary64 (1 / 100))
              = 8016407336719483 / 2251799813685248"
    by (simp add: b64)
  have tot: "binary64 (binary64 (binary64 (0 + 1) + 8016407336719483 / 2251799813685248)
                        + 5764607523034235 / 2251799813685248)
              = 2004101834179871 / 281474976710656"
    by (simp add: b64)
  have r0: "binary64 (1 / (2004101834179871 / 281474976710656))
              = 5060224300416287 / 36028797018963968"
    by (simp add: b64)
  have r1: "binary64 (8016407336719483 / 2251799813685248 / (2004101834179871 / 281474976710656))
              = 9007199254740991 / 18014398509481984"
    by (simp add: b64)
  have r2: "binary64 (5764607523034235 / 2251799813685248 / (2004101834179871 / 281474976710656))
              = 6477087104532847 / 18014398509481984"
    by (simp add: b64)
  have al: "computeAdaptiveAlloc_rd binary64 [a0, a1, a2]
          = Some [5060224300416287 / 36028797018963968,
                  9007199254740991 / 18014398509481984,
                  6477087104532847 / 18014398509481984]"
    unfolding computeAdaptiveAlloc_rd_three [OF p b] Let_def m0 m1 m2 g0 g2 w0 w2 so wb tot r0 r1 r2
    by (rule refl)
  have ne: "(9007199254740991 / 18014398509481984 :: real) \<noteq> 1 / 2" by simp
  from v mn b al ne show ?thesis
    unfolding a0_def a1_def a2_def by (intro conjI)
qed

subsection \<open>Simulation driver\<close>

lemma currentAlloc_length:
  assumes "arms \<noteq> []"
  shows "\<exists>alloc. currentAlloc m arms = Some alloc \<and> length alloc = length arms"
proof -
  have "\<not> length arms \<le> bestArmIdx arms"
    using bestArmIdx_less [OF assms] by simp
  then show ?thesis
    by (simp add: currentAlloc_def computeAdaptiveAlloc_unfold uniformAlloc_def)
qed

lemma selectArm_range:
  assumes "alloc \<noteq> []"
  shows "0 \<le> selectArm r alloc \<and> selectArm r alloc < int (length alloc)"
proof (cases "selectArm_loop r 0 0 alloc")
  case None
  then show ?thesis using assms by (simp add: selectArm_def)
next
  case (Some k)
  from selectArm_loop_Some [OF Some] have "k < length alloc" by auto
  with Some show ?thesis by (simp add: selectArm_def)
qed

lemma pulls_pull [simp]: "pulls (pull u a) = pulls a + 1"
  by (simp add: pull_def Let_def)

lemma sum_list_update_nat:
  fixes xs :: "nat list"
  shows "k < length xs \<Longrightarrow> sum_list (xs[k := xs ! k + d]) = sum_list xs + d"
  by (induction xs arbitrary: k) (auto split: nat.splits)

lemma totalPulls_pull:
  assumes "k < length arms"
  shows "totalPulls (arms[k := pull u (arms ! k)]) = totalPulls arms + 1"
proof -
  have "map pulls (arms[k := pull u (arms ! k)]) = (map pulls arms)[k := map pulls arms ! k + 1]"
    using assms by (simp add: map_update)
  then show ?thesis
    using assms sum_list_update_nat [of k "map pulls arms" 1]
    by (simp add: totalPulls_sum_list)
qed

lemma simStep_effect:
  assumes "sim_arms s \<noteq> []"
  shows "\<exists>s1 k. simStep r u s = Some s1 \<and> k < length (sim_arms s)
           \<and> sim_arms s1 = (sim_arms s)[k := pull u (sim_arms s ! k)]
           \<and> same_controls s s1
           \<and> simDone s1 = (simDone s \<or> shouldStop (sim_arms s1))
           \<and> simWinner s1 = (if shouldStop (sim_arms s1) then Some (bestArmIdx (sim_arms s1))
                              else simWinner s)"
proof -
  from currentAlloc_length [OF assms] obtain alloc
    where a: "currentAlloc (simMode s) (sim_arms s) = Some alloc"
      and l: "length alloc = length (sim_arms s)" by blast
  have "alloc \<noteq> []" using l assms by auto
  from selectArm_range [OF this, of r] l
  have r: "0 \<le> selectArm r alloc" "selectArm r alloc < int (length (sim_arms s))" by simp_all
  let ?k = "nat (selectArm r alloc)"
  have k: "?k < length (sim_arms s)" using r by simp
  have g: "\<not> (selectArm r alloc < 0 \<or> int (length (sim_arms s)) \<le> selectArm r alloc)"
    using r by simp
  have "\<exists>s1. simStep r u s = Some s1
           \<and> sim_arms s1 = (sim_arms s)[?k := pull u (sim_arms s ! ?k)]
           \<and> same_controls s s1
           \<and> simDone s1 = (simDone s \<or> shouldStop (sim_arms s1))
           \<and> simWinner s1 = (if shouldStop (sim_arms s1) then Some (bestArmIdx (sim_arms s1))
                              else simWinner s)"
    using a g by (simp add: simStep_def Let_def same_controls_def)
  then show ?thesis using k by blast
qed

lemma loop_inv_terminal: "loop_inv s \<Longrightarrow> terminal s \<longleftrightarrow> stop_or_cap (sim_arms s)"
  by (simp add: loop_inv_def terminal_def stop_or_cap_def)

lemma simStep_loop_inv:
  assumes inv: "loop_inv s" and nt: "\<not> terminal s"
  shows "\<exists>s1. simStep r u s = Some s1 \<and> loop_inv s1 \<and> same_controls s s1
           \<and> totalPulls (sim_arms s1) = totalPulls (sim_arms s) + 1"
proof -
  have ne: "sim_arms s \<noteq> []" using inv by (simp add: loop_inv_def)
  from simStep_effect [OF ne, of r u] obtain s1 k where
    st: "simStep r u s = Some s1" and k: "k < length (sim_arms s)"
    and ar: "sim_arms s1 = (sim_arms s)[k := pull u (sim_arms s ! k)]"
    and sc: "same_controls s s1"
    and dn: "simDone s1 = (simDone s \<or> shouldStop (sim_arms s1))"
    and wn: "simWinner s1 = (if shouldStop (sim_arms s1) then Some (bestArmIdx (sim_arms s1))
                              else simWinner s)"
    by blast
  have tp: "totalPulls (sim_arms s1) = totalPulls (sim_arms s) + 1"
    unfolding ar using k by (rule totalPulls_pull)
  have "\<not> simDone s" "totalPulls (sim_arms s) < MAX_STEPS"
    using nt by (simp_all add: terminal_def)
  moreover have "simWinner s = None" using inv \<open>\<not> simDone s\<close> by (simp add: loop_inv_def)
  moreover have "sim_arms s1 \<noteq> []" using ne ar by simp
  ultimately have "loop_inv s1"
    using tp dn wn by (simp add: loop_inv_def)
  with st sc tp show ?thesis by blast
qed

lemma same_controls_refl: "same_controls s s"
  by (simp add: same_controls_def)

lemma same_controls_trans: "same_controls s s1 \<Longrightarrow> same_controls s1 s2 \<Longrightarrow> same_controls s s2"
  by (simp add: same_controls_def)

lemma tickSteps_cond:
  "(case stepsPerTick s of Some n \<Rightarrow> i < n | None \<Rightarrow> False) \<longleftrightarrow> i < tickSteps s"
  by (simp add: tickSteps_def split: option.splits)

lemma runBatch_loop_unfold:
  "runBatch_loop rnd i s =
     (if i < tickSteps s then
        (if terminal s then Some s
         else case simStep (fst (rnd i)) (snd (rnd i)) s of
                None \<Rightarrow> None
              | Some s1 \<Rightarrow> runBatch_loop rnd (Suc i) s1)
      else Some s)"
  by (subst runBatch_loop.simps) (simp add: tickSteps_cond terminal_def)

text \<open>The loop of \<^verbatim>\<open>runBatch\<close> makes the steps of \<open>simSteps\<close> up to the first state in which the
  stopping rule holds or the cap is reached, and at most \<open>tickSteps s - i\<close> of them.\<close>

lemma runBatch_loop_props:
  "loop_inv s \<Longrightarrow>
     \<exists>s' k. runBatch_loop rnd i s = Some s' \<and> loop_inv s' \<and> same_controls s s'
        \<and> (terminal s \<longrightarrow> s' = s)
        \<and> k \<le> tickSteps s - i
        \<and> simSteps rnd i k s = Some s'
        \<and> (\<forall>j < k. \<forall>sj. simSteps rnd i j s = Some sj \<longrightarrow> \<not> stop_or_cap (sim_arms sj))
        \<and> (k = tickSteps s - i \<or> terminal s')
        \<and> totalPulls (sim_arms s') = totalPulls (sim_arms s) + k"
proof (induction rnd i s rule: runBatch_loop.induct)
  case (1 rnd i s)
  show ?case
  proof (cases "i < tickSteps s \<and> \<not> terminal s")
    case False
    then have "runBatch_loop rnd i s = Some s"
      by (subst runBatch_loop_unfold) auto
    moreover have "0 = tickSteps s - i \<or> terminal s" using False by auto
    ultimately show ?thesis
      using "1.prems"
      by (intro exI [of _ s] exI [of _ 0]) (simp add: same_controls_refl)
  next
    case True
    then have lt: "i < tickSteps s" and nt: "\<not> terminal s" by simp_all
    from simStep_loop_inv [OF "1.prems" nt, of "fst (rnd i)" "snd (rnd i)"]
    obtain s1 where st: "simStep (fst (rnd i)) (snd (rnd i)) s = Some s1"
      and inv1: "loop_inv s1" and sc1: "same_controls s s1"
      and tp1: "totalPulls (sim_arms s1) = totalPulls (sim_arms s) + 1"
      by blast
    have c: "case stepsPerTick s of Some n \<Rightarrow> i < n | None \<Rightarrow> False"
      using lt by (simp add: tickSteps_cond)
    have g: "\<not> (simDone s \<or> MAX_STEPS \<le> totalPulls (sim_arms s))"
      using nt by (simp add: terminal_def)
    from "1.IH" [OF c g st inv1] obtain s' k where
      r: "runBatch_loop rnd (Suc i) s1 = Some s'" and inv': "loop_inv s'"
      and sc': "same_controls s1 s'"
      and le: "k \<le> tickSteps s1 - Suc i"
      and ss: "simSteps rnd (Suc i) k s1 = Some s'"
      and fa: "\<forall>j < k. \<forall>sj. simSteps rnd (Suc i) j s1 = Some sj
                 \<longrightarrow> \<not> stop_or_cap (sim_arms sj)"
      and en: "k = tickSteps s1 - Suc i \<or> terminal s'"
      and tp': "totalPulls (sim_arms s') = totalPulls (sim_arms s1) + k"
      by blast
    have eq: "runBatch_loop rnd i s = Some s'"
      using lt nt st r by (subst runBatch_loop_unfold) simp
    have ts: "tickSteps s1 = tickSteps s"
      using sc1 by (simp add: same_controls_def tickSteps_def)
    have le': "Suc k \<le> tickSteps s - i" using le ts lt by simp
    have ss': "simSteps rnd i (Suc k) s = Some s'" using st ss by simp
    have fa': "\<forall>j < Suc k. \<forall>sj. simSteps rnd i j s = Some sj
                 \<longrightarrow> \<not> stop_or_cap (sim_arms sj)"
    proof (intro allI impI)
      fix j sj
      assume j: "j < Suc k" and sj: "simSteps rnd i j s = Some sj"
      show "\<not> stop_or_cap (sim_arms sj)"
      proof (cases j)
        case 0
        then have "sj = s" using sj by simp
        then show ?thesis using nt loop_inv_terminal [OF "1.prems"] by simp
      next
        case (Suc j')
        then have "simSteps rnd (Suc i) j' s1 = Some sj" using sj st by simp
        moreover have "j' < k" using j Suc by simp
        ultimately show ?thesis using fa by blast
      qed
    qed
    have en': "Suc k = tickSteps s - i \<or> terminal s'" using en ts lt by auto
    have tp: "totalPulls (sim_arms s') = totalPulls (sim_arms s) + Suc k"
      using tp' tp1 by simp
    show ?thesis
      using eq inv' same_controls_trans [OF sc1 sc'] nt le' ss' fa' en' tp
      by (intro exI [of _ s'] exI [of _ "Suc k"]) simp
  qed
qed

lemma loop_inv_bestArm: "loop_inv s \<Longrightarrow> bestArmIdx (sim_arms s) < length (sim_arms s)"
  by (simp add: loop_inv_def bestArmIdx_less)

lemma tick_steps_to_cong:
  assumes "tick_steps_to rnd s s1 k"
    and "sim_arms s' = sim_arms s1" and "simDone s' = simDone s1"
    and "simWinner s' = simWinner s1" and "allocHistory s' = allocHistory s1"
  shows "tick_steps_to rnd s s' k"
  using assms by (simp add: tick_steps_to_def)

lemma runBatch_props:
  assumes inv: "loop_inv s"
  shows "\<exists>s' k. runBatch rnd s = Some s' \<and> loop_inv s'
        \<and> simMode s' = simMode s \<and> stepsPerTick s' = stepsPerTick s
        \<and> (terminal s \<longrightarrow> sim_arms s' = sim_arms s \<and> simDone s' = simDone s)
        \<and> (terminal s' \<longrightarrow> \<not> simRunning s' \<and> \<not> simTimer s'
                              \<and> winnerBar s' = Some (outcome s')
                              \<and> showCalls s' = showCalls s + 1)
        \<and> (\<not> terminal s' \<longrightarrow> simRunning s' = simRunning s \<and> simTimer s' = simTimer s
                                \<and> winnerBar s' = winnerBar s \<and> showCalls s' = showCalls s)
        \<and> tick_steps_to rnd s s' k"
proof -
  from runBatch_loop_props [OF inv, of rnd 0] obtain s1 k where
    l: "runBatch_loop rnd 0 s = Some s1" and inv1: "loop_inv s1" and sc: "same_controls s s1"
    and tm: "terminal s \<longrightarrow> s1 = s"
    and le: "k \<le> tickSteps s"
    and ss: "simSteps rnd 0 k s = Some s1"
    and fa: "\<forall>j < k. \<forall>sj. simSteps rnd 0 j s = Some sj \<longrightarrow> \<not> stop_or_cap (sim_arms sj)"
    and en: "k = tickSteps s \<or> terminal s1"
    and tp: "totalPulls (sim_arms s1) = totalPulls (sim_arms s) + k"
    by auto
  have en1: "k = tickSteps s \<or> stop_or_cap (sim_arms s1)"
    using en loop_inv_terminal [OF inv1] by simp
  have tk: "tick_steps_to rnd s s1 k"
    unfolding tick_steps_to_def using le ss fa en1 tp by simp
  have b: "\<not> length (sim_arms s1) \<le> bestArmIdx (sim_arms s1)"
    using loop_inv_bestArm [OF inv1] by simp
  show ?thesis
  proof (cases "terminal s1")
    case False
    then have "runBatch rnd s = Some s1"
      using l b by (simp add: runBatch_def renderSim_def terminal_def)
    then show ?thesis
      using inv1 sc tm False tk
      by (intro exI [of _ s1] exI [of _ k]) (auto simp: same_controls_def)
  next
    case True
    let ?s3 = "s1\<lparr>simRunning := False, simTimer := False\<rparr>"
    let ?s4 = "?s3\<lparr>winnerBar := Some (outcome s1), showCalls := showCalls s1 + 1\<rparr>"
    have w: "(case simWinner ?s3 of Some w0 \<Rightarrow> w0 | None \<Rightarrow> bestArmIdx (sim_arms ?s3))
               = bestArmIdx (sim_arms s1)"
      using inv1 by (simp add: loop_inv_def split: option.splits)
    have "showWinner ?s3 = Some ?s4"
      unfolding showWinner_def w Let_def using b by (simp add: outcome_def)
    then have r: "runBatch rnd s = Some ?s4"
      using l b True by (simp add: runBatch_def renderSim_def stopSim_def terminal_def)
    have "loop_inv ?s4" using inv1 by (simp add: loop_inv_def)
    moreover have "terminal ?s4" using True by (simp add: terminal_def)
    moreover have "outcome ?s4 = outcome s1" by (simp add: outcome_def)
    moreover have "tick_steps_to rnd s ?s4 k"
      using tk by (rule tick_steps_to_cong) simp_all
    ultimately show ?thesis
      using r sc tm
      by (intro exI [of _ ?s4] exI [of _ k]) (auto simp: same_controls_def)
  qed
qed

lemma driver_inv_loop_inv:
  "driver_inv s \<longleftrightarrow>
     loop_inv s \<and> winnerBar s = (if terminal s then Some (outcome s) else None)
     \<and> (showCalls s = 0) = (\<not> terminal s)
     \<and> (simDone s \<longrightarrow> showCalls s = 1 \<and> \<not> simTimer s)
     \<and> simTimer s = simRunning s"
  by (auto simp: driver_inv_def loop_inv_def)

lemma driver_inv_terminal: "driver_inv s \<Longrightarrow> terminal s \<longleftrightarrow> stop_or_cap (sim_arms s)"
  by (simp add: driver_inv_loop_inv loop_inv_terminal)

lemma step_okI:
  assumes inv': "driver_inv s'"
    and first: "\<not> terminal s \<and> terminal s' \<longrightarrow>
                  is_tick e \<and> winnerBar s = None \<and> showCalls s = 0 \<and> showCalls s' = 1
                  \<and> \<not> simRunning s' \<and> \<not> simTimer s'"
    and keep: "terminal s \<and> \<not> is_reset e s \<longrightarrow>
                 terminal s' \<and> counts s' = counts s \<and> outcome s' = outcome s
                 \<and> winnerBar s' = winnerBar s"
    and rs: "is_reset e s \<longrightarrow> \<not> terminal s' \<and> totalPulls (sim_arms s') = 0"
    and tk: "\<forall>rnd. e = Tick rnd \<and> simTimer s \<longrightarrow> (\<exists>k. tick_steps_to rnd s s' k)"
  shows "step_ok e s s'"
proof -
  have wb: "winnerBar s' = (if terminal s' then Some (outcome s') else None)"
    and sh: "(showCalls s' = 0) = (\<not> terminal s')"
    and dn: "simDone s' \<longrightarrow> showCalls s' = 1 \<and> \<not> simTimer s'"
    and li: "loop_inv s'"
    using inv' unfolding driver_inv_loop_inv by blast+
  have 1: "terminal s' \<longleftrightarrow> stop_or_cap (sim_arms s')"
    using inv' by (rule driver_inv_terminal)
  have 2: "\<not> terminal s \<and> terminal s' \<longrightarrow>
          is_tick e \<and> winnerBar s = None \<and> showCalls s = 0
          \<and> winnerBar s' = Some (outcome s') \<and> showCalls s' = 1
          \<and> \<not> simRunning s' \<and> \<not> simTimer s'"
    using first wb by simp
  have 3: "simDone s' \<longrightarrow>
          simWinner s' = Some (bestArmIdx (sim_arms s')) \<and> showCalls s' = 1"
    using li dn by (simp add: loop_inv_def)
  have 4: "is_reset e s \<longrightarrow>
          \<not> terminal s' \<and> winnerBar s' = None \<and> showCalls s' = 0
          \<and> totalPulls (sim_arms s') = 0"
    using rs wb sh by simp
  have 5: "simDone s' \<longleftrightarrow> shouldStop (sim_arms s')"
    using li by (simp add: loop_inv_def)
  show ?thesis
    unfolding step_ok_def using inv' 1 5 2 keep 3 4 tk by blast
qed

lemma step_ok_same:
  assumes "driver_inv s" and "\<not> is_reset e s"
    and "sim_arms s' = sim_arms s" and "simDone s' = simDone s"
    and "simWinner s' = simWinner s" and "winnerBar s' = winnerBar s"
    and "showCalls s' = showCalls s"
    and "is_tick e \<longrightarrow> \<not> simTimer s"
    and "simDone s \<longrightarrow> \<not> simTimer s'"
    and "simTimer s' = simRunning s'
         \<or> (simTimer s' = simTimer s \<and> simRunning s' = simRunning s)"
  shows "step_ok e s s'"
proof (rule step_okI)
  have t: "terminal s' = terminal s" using assms(3,4) by (simp add: terminal_def)
  have o: "outcome s' = outcome s" using assms(3) by (simp add: outcome_def)
  have c: "counts s' = counts s" using assms(3) by (simp add: counts_def)
  have r: "simTimer s' = simRunning s'"
    using assms(1,10) by (auto simp: driver_inv_def)
  have d: "simDone s' \<longrightarrow> showCalls s' = 1 \<and> \<not> simTimer s'"
    using assms(1,4,7,9) by (simp add: driver_inv_def)
  show "driver_inv s'"
    using assms(1) assms(3-7) t o r d by (simp add: driver_inv_def)
  show "\<not> terminal s \<and> terminal s' \<longrightarrow>
          is_tick e \<and> winnerBar s = None \<and> showCalls s = 0 \<and> showCalls s' = 1
          \<and> \<not> simRunning s' \<and> \<not> simTimer s'"
    using t by simp
  show "terminal s \<and> \<not> is_reset e s \<longrightarrow>
          terminal s' \<and> counts s' = counts s \<and> outcome s' = outcome s
          \<and> winnerBar s' = winnerBar s"
    using t o c assms(6) by simp
  show "is_reset e s \<longrightarrow> \<not> terminal s' \<and> totalPulls (sim_arms s') = 0"
    using assms(2) by simp
  show "\<forall>rnd. e = Tick rnd \<and> simTimer s \<longrightarrow> (\<exists>k. tick_steps_to rnd s s' k)"
    using assms(8) by auto
qed

lemma totalPulls_reset [simp]: "totalPulls (map reset arms) = 0"
  by (simp add: totalPulls_sum_list reset_def comp_def)

lemma MAX_STEPS_pos: "0 < MAX_STEPS"
  by (simp add: MAX_STEPS_def)

lemma shouldStop_iff:
  "shouldStop arms \<longleftrightarrow>
     \<not> minPulls arms < 12
     \<and> (\<forall>j < length arms. j \<noteq> bestArmIdx arms \<longrightarrow>
          stoppingThreshold (real (totalPulls arms))
            \<le> glrtStat (arms ! bestArmIdx arms) (arms ! j))"
  by (auto simp: shouldStop_def Let_def shouldStop_loop_iff)

lemma shouldStop_few_pulls:
  assumes "a \<in> set arms" and "pulls a < 12"
  shows "\<not> shouldStop arms"
proof -
  have "minPulls arms < 12"
    using assms minPulls_less_numeral [of arms] by blast
  then show ?thesis by (simp add: shouldStop_iff)
qed

lemma shouldStop_reset:
  assumes "arms \<noteq> []"
  shows "\<not> shouldStop (map reset arms)"
proof (rule shouldStop_few_pulls)
  show "reset (hd arms) \<in> set (map reset arms)" using assms by simp
  show "pulls (reset (hd arms)) < 12" by (simp add: reset_def)
qed

lemma resetSim_ok:
  assumes "driver_inv s" and "is_reset e s"
  shows "\<exists>s'. resetSim s = Some s' \<and> step_ok e s s'"
proof -
  have ne: "sim_arms s \<noteq> []" using assms(1) by (simp add: driver_inv_def)
  have b: "\<not> length (sim_arms s) \<le> bestArmIdx (sim_arms s)"
    using bestArmIdx_less [OF ne] by simp
  let ?s' = "s\<lparr>simRunning := False, simTimer := False, sim_arms := map reset (sim_arms s),
                allocHistory := [], simDone := False, simWinner := None, winnerBar := None,
                showCalls := 0\<rparr>"
  have r: "resetSim s = Some ?s'"
    using b by (simp add: resetSim_def stopSim_def renderSim_def)
  have nt: "\<not> terminal ?s'" using MAX_STEPS_pos by (simp add: terminal_def)
  have ns: "\<not> shouldStop (map reset (sim_arms s))" using ne by (rule shouldStop_reset)
  have inv': "driver_inv ?s'"
    using ne nt ns by (simp add: driver_inv_def)
  have nk: "\<forall>rnd. e \<noteq> Tick rnd" using assms(2) by (cases e) simp_all
  have "step_ok e s ?s'"
    using inv'
  proof (rule step_okI)
    show "\<forall>rnd. e = Tick rnd \<and> simTimer s \<longrightarrow> (\<exists>k. tick_steps_to rnd s ?s' k)"
      using nk by simp
  qed (use nt assms(2) in simp_all)
  with r show ?thesis by blast
qed

lemma mean_trueRate_update [simp]: "mean (a\<lparr>trueRate := v\<rparr>) = mean a"
  by (simp add: mean_def)

lemma bestArmIdx_cong:
  assumes "length xs = length ys" and "\<forall>j < length xs. mean (xs ! j) = mean (ys ! j)"
  shows "bestArmIdx xs = bestArmIdx ys"
proof (cases "xs = []")
  case True
  then show ?thesis using assms(1) by simp
next
  case False
  then have ny: "ys \<noteq> []" using assms(1) by auto
  have fx: "first_max_mean xs (bestArmIdx xs)" using False by (rule bestArmIdx_first_max)
  then have b: "bestArmIdx xs < length xs" by (simp add: first_max_mean_def)
  have eq: "mean (xs ! j) = mean (ys ! j)" if "j < length xs" for j
    using assms(2) that by blast
  have "mean (ys ! j) \<le> mean (ys ! bestArmIdx xs)" if "j < length ys" for j
  proof -
    have j: "j < length xs" using that assms(1) by simp
    have "mean (xs ! j) \<le> mean (xs ! bestArmIdx xs)"
      using fx j by (simp add: first_max_mean_def)
    then show ?thesis unfolding eq [OF j] eq [OF b] .
  qed
  moreover have "mean (ys ! j) < mean (ys ! bestArmIdx xs)" if "j < bestArmIdx xs" for j
  proof -
    have j: "j < length xs" using that b by simp
    have "mean (xs ! j) < mean (xs ! bestArmIdx xs)"
      using fx that by (simp add: first_max_mean_def)
    then show ?thesis unfolding eq [OF j] eq [OF b] .
  qed
  ultimately have "first_max_mean ys (bestArmIdx xs)"
    using b assms(1) by (simp add: first_max_mean_def)
  then show ?thesis
    using bestArmIdx_first_max [OF ny] first_max_mean_unique by blast
qed

text \<open>The stopping rule reads only the pull and success counts of the arms.\<close>

lemma shouldStop_cong:
  assumes len: "length xs = length ys"
    and eq: "\<forall>j < length xs. pulls (xs ! j) = pulls (ys ! j)
               \<and> successes (xs ! j) = successes (ys ! j)"
  shows "shouldStop xs = shouldStop ys"
proof -
  have p: "map pulls xs = map pulls ys"
    using len eq by (intro nth_equalityI) simp_all
  have m: "mean (xs ! j) = mean (ys ! j)" if "j < length xs" for j
    using eq that by (simp add: mean_def)
  have t: "totalPulls xs = totalPulls ys" by (simp add: totalPulls_sum_list p)
  have "map (\<lambda>a. enat (pulls a)) xs = map (\<lambda>a. enat (pulls a)) ys"
    using len eq by (intro nth_equalityI) simp_all
  then have mp: "minPulls xs = minPulls ys" by (simp only: minPulls_def)
  have b: "bestArmIdx xs = bestArmIdx ys"
    using len m by (intro bestArmIdx_cong) simp_all
  have g: "glrtStat (xs ! i) (xs ! j) = glrtStat (ys ! i) (ys ! j)"
    if "i < length xs" and "j < length xs" for i j
    using eq m [OF that(1)] m [OF that(2)] that by (simp add: glrtStat_def)
  show ?thesis
  proof (cases "xs = []")
    case True
    then show ?thesis using len by simp
  next
    case False
    then have bl: "bestArmIdx xs < length xs" by (rule bestArmIdx_less)
    show ?thesis
      unfolding shouldStop_iff mp t b [symmetric] using g [OF bl] len by auto
  qed
qed

lemma setRate_ok:
  assumes "driver_inv s" and "i < length (sim_arms s)"
  shows "\<exists>s'. setRate i v s = Some s' \<and> step_ok (SetRate i v) s s'"
proof -
  let ?arms = "(sim_arms s)[i := (sim_arms s ! i)\<lparr>trueRate := v / 100\<rparr>]"
  let ?s' = "s\<lparr>sim_arms := ?arms\<rparr>"
  have r: "setRate i v s = Some ?s'" using assms(2) by (simp add: setRate_def)
  have ne: "?arms \<noteq> []" using assms(2) by auto
  have mp: "map pulls ?arms = map pulls (sim_arms s)"
    using assms(2) by (intro nth_equalityI) (auto simp: nth_list_update)
  have tp: "totalPulls ?arms = totalPulls (sim_arms s)"
    by (simp add: totalPulls_sum_list mp)
  have "\<forall>j < length ?arms. mean (?arms ! j) = mean (sim_arms s ! j)"
    using assms(2) by (auto simp: nth_list_update)
  then have bi: "bestArmIdx ?arms = bestArmIdx (sim_arms s)"
    by (intro bestArmIdx_cong) simp_all
  have "\<forall>j < length ?arms. pulls (?arms ! j) = pulls (sim_arms s ! j)
          \<and> successes (?arms ! j) = successes (sim_arms s ! j)"
    using assms(2) by (auto simp: nth_list_update)
  then have st: "shouldStop ?arms = shouldStop (sim_arms s)"
    by (intro shouldStop_cong) simp_all
  have t: "terminal ?s' = terminal s" using tp by (simp add: terminal_def)
  have o: "outcome ?s' = outcome s" using tp bi by (simp add: outcome_def)
  have "map (\<lambda>a. (pulls a, successes a)) ?arms = map (\<lambda>a. (pulls a, successes a)) (sim_arms s)"
    using assms(2) by (intro nth_equalityI) (auto simp: nth_list_update)
  then have c: "counts ?s' = counts s" by (simp add: counts_def)
  have inv': "driver_inv ?s'"
    using assms(1) ne tp bi st t o by (auto simp: driver_inv_def)
  have "step_ok (SetRate i v) s ?s'"
    using inv' by (rule step_okI) (use t o c in simp_all)
  with r show ?thesis by blast
qed

lemma tick_ok:
  assumes "driver_inv s"
  shows "\<exists>s'. fire (Tick rnd) s = Some s' \<and> step_ok (Tick rnd) s s'"
proof (cases "simTimer s")
  case False
  then have "fire (Tick rnd) s = Some s" by simp
  moreover have "step_ok (Tick rnd) s s"
    using assms
  proof (rule step_ok_same)
    show "is_tick (Tick rnd) \<longrightarrow> \<not> simTimer s" using False by simp
    show "simDone s \<longrightarrow> \<not> simTimer s" using False by simp
  qed simp_all
  ultimately show ?thesis by blast
next
  case True
  have li: "loop_inv s" and wb: "winnerBar s = (if terminal s then Some (outcome s) else None)"
    and sh: "(showCalls s = 0) = (\<not> terminal s)"
    and dn: "simDone s \<longrightarrow> showCalls s = 1 \<and> \<not> simTimer s"
    and tr: "simTimer s = simRunning s"
    using assms unfolding driver_inv_loop_inv by blast+
  have nd: "\<not> simDone s" using dn True by blast
  from runBatch_props [OF li, of rnd] obtain s' k where
    r: "runBatch rnd s = Some s'" and li': "loop_inv s'"
    and tm: "terminal s \<longrightarrow> sim_arms s' = sim_arms s \<and> simDone s' = simDone s"
    and t': "terminal s' \<longrightarrow> \<not> simRunning s' \<and> \<not> simTimer s'
                              \<and> winnerBar s' = Some (outcome s')
                              \<and> showCalls s' = showCalls s + 1"
    and nt': "\<not> terminal s' \<longrightarrow> simRunning s' = simRunning s \<and> simTimer s' = simTimer s
                                \<and> winnerBar s' = winnerBar s \<and> showCalls s' = showCalls s"
    and tk: "tick_steps_to rnd s s' k"
    by blast
  have tt: "terminal s \<longrightarrow> terminal s'" using tm by (auto simp: terminal_def)
  have wb': "winnerBar s' = (if terminal s' then Some (outcome s') else None)"
    using t' nt' wb tt by auto
  have sh': "(showCalls s' = 0) = (\<not> terminal s')"
    using t' nt' sh tt by auto
  have dn': "simDone s' \<longrightarrow> showCalls s' = 1 \<and> \<not> simTimer s'"
  proof
    assume d: "simDone s'"
    then have ts': "terminal s'" by (simp add: terminal_def)
    have "\<not> terminal s" using tm d nd by auto
    then have "showCalls s = 0" using sh by simp
    with t' ts' show "showCalls s' = 1 \<and> \<not> simTimer s'" by simp
  qed
  have "simTimer s' = simRunning s'" using t' nt' tr by auto
  then have inv': "driver_inv s'"
    using li' wb' sh' dn' by (simp add: driver_inv_loop_inv)
  have keep: "terminal s \<longrightarrow> counts s' = counts s \<and> outcome s' = outcome s
                \<and> winnerBar s' = winnerBar s"
    using tm tt wb wb' by (auto simp: counts_def outcome_def)
  have first: "\<not> terminal s \<and> terminal s' \<longrightarrow>
                 is_tick (Tick rnd) \<and> winnerBar s = None \<and> showCalls s = 0
                 \<and> showCalls s' = 1 \<and> \<not> simRunning s' \<and> \<not> simTimer s'"
    using t' wb sh by auto
  have "step_ok (Tick rnd) s s'"
    using inv' first
  proof (rule step_okI)
    show "terminal s \<and> \<not> is_reset (Tick rnd) s \<longrightarrow>
            terminal s' \<and> counts s' = counts s \<and> outcome s' = outcome s
            \<and> winnerBar s' = winnerBar s"
      using tt keep by simp
    show "is_reset (Tick rnd) s \<longrightarrow> \<not> terminal s' \<and> totalPulls (sim_arms s') = 0"
      by simp
    show "\<forall>r. Tick rnd = Tick r \<and> simTimer s \<longrightarrow> (\<exists>k. tick_steps_to r s s' k)"
      using tk by auto
  qed
  with r True show ?thesis by simp
qed

lemma fire_ok:
  assumes "driver_inv s"
  shows "case fire e s of
           None \<Rightarrow> (\<exists>i v. e = SetRate i v \<and> length (sim_arms s) \<le> i)
         | Some s' \<Rightarrow> step_ok e s s'"
proof (cases e)
  case (Tick rnd)
  then show ?thesis using tick_ok [OF assms, of rnd] by auto
next
  case TogglePlay
  show ?thesis
  proof (cases "simDone s")
    case True
    then have "is_reset e s" using TogglePlay by simp
    from resetSim_ok [OF assms this] show ?thesis using TogglePlay True by (auto simp: togglePlay_def)
  next
    case False
    have ne: "sim_arms s \<noteq> []" using assms by (simp add: driver_inv_def)
    have b: "\<not> length (sim_arms s) \<le> bestArmIdx (sim_arms s)"
      using bestArmIdx_less [OF ne] by simp
    have nr: "\<not> is_reset e s" using TogglePlay False by simp
    show ?thesis
    proof (cases "simRunning s")
      case True
      have "step_ok e s (s\<lparr>simRunning := False, simTimer := False\<rparr>)"
        using assms nr by (rule step_ok_same) (simp_all add: TogglePlay)
      then show ?thesis
        using TogglePlay False True b by (simp add: togglePlay_def pauseSim_def renderSim_def)
    next
      case nrun: False
      have "step_ok e s (startSim s)"
        using assms nr by (rule step_ok_same) (simp_all add: startSim_def TogglePlay False)
      then show ?thesis
        using TogglePlay False nrun by (simp add: togglePlay_def)
    qed
  qed
next
  case (SetMode m)
  let ?s = "s\<lparr>simMode := m\<rparr>"
  have inv: "driver_inv ?s"
    using assms by (auto simp: driver_inv_def terminal_def outcome_def)
  have "is_reset e ?s" using SetMode by simp
  from resetSim_ok [OF inv this] obtain s' where r: "resetSim ?s = Some s'"
    and ok: "step_ok e ?s s'" by blast
  have f: "driver_inv s'" "\<not> terminal s'" "totalPulls (sim_arms s') = 0"
    using ok SetMode unfolding step_ok_def by auto
  have "step_ok e s s'"
    using f(1) by (rule step_okI) (use f SetMode in simp_all)
  then show ?thesis using r SetMode by (simp add: setMode_def)
next
  case (SetSpeed v)
  have tm: "simDone s \<longrightarrow> \<not> simTimer s"
    using assms unfolding driver_inv_def by blast
  have "step_ok e s (setSpeed v s)"
    using assms
  proof (rule step_ok_same)
    show "simDone s \<longrightarrow> \<not> simTimer (setSpeed v s)"
      using tm by (simp add: setSpeed_def)
  qed (simp_all add: SetSpeed setSpeed_def)
  then show ?thesis using SetSpeed by simp
next
  case (SetRate i v)
  show ?thesis
  proof (cases "i < length (sim_arms s)")
    case True
    from setRate_ok [OF assms True, of v] show ?thesis using SetRate by auto
  next
    case False
    then show ?thesis using SetRate by (simp add: setRate_def)
  qed
qed

lemma driver_inv_initial: "driver_inv initial"
proof -
  have "newArm 0 \<in> set (sim_arms initial)"
    by (simp add: initial_def DEFAULT_RATES_def upt_conv_Cons)
  moreover have "pulls (newArm 0) < 12" by (simp add: newArm_def)
  ultimately have "\<not> shouldStop (sim_arms initial)" by (rule shouldStop_few_pulls)
  moreover have "totalPulls (sim_arms initial) = 0"
    by (simp add: initial_def totalPulls_sum_list newArm_def comp_def)
  moreover have "sim_arms initial \<noteq> []" by (simp add: initial_def DEFAULT_RATES_def)
  ultimately show ?thesis
    by (simp add: driver_inv_def terminal_def MAX_STEPS_def) (simp add: initial_def)
qed

lemma reachable_driver_inv: "reachable s \<Longrightarrow> driver_inv s"
proof (induction rule: reachable.induct)
  case init
  show ?case by (rule driver_inv_initial)
next
  case (step s e s')
  from fire_ok [OF step.IH, of e] step.hyps(2) show ?case
    by (simp add: step_ok_def)
qed

text \<open>The stopping rule at the example states. With one arm at 12 successes in 12 pulls and
  the others at none, each statistic is \<open>24\<close> times a divergence of at least \<open>13\<close>, above the
  threshold, which is at most \<open>17\<close> up to the cap; with two arms of equal mean the statistic
  of the tie is \<open>0\<close>, below the threshold.\<close>

lemma bestArmIdx_eqI: "first_max_mean arms b \<Longrightarrow> bestArmIdx arms = b"
proof -
  assume f: "first_max_mean arms b"
  then have "arms \<noteq> []" by (auto simp: first_max_mean_def)
  from bestArmIdx_first_max [OF this] f show ?thesis by (rule first_max_mean_unique)
qed

lemma shouldStop_tie:
  assumes "j < length arms" and "j \<noteq> bestArmIdx arms"
    and "mean (arms ! bestArmIdx arms) \<le> mean (arms ! j)"
  shows "\<not> shouldStop arms"
proof
  assume "shouldStop arms"
  then have "stoppingThreshold (real (totalPulls arms))
               \<le> glrtStat (arms ! bestArmIdx arms) (arms ! j)"
    using assms(1,2) by (simp add: shouldStop_iff)
  moreover have "glrtStat (arms ! bestArmIdx arms) (arms ! j) = 0"
    using assms(3) by (simp add: glrtStat_def)
  moreover have "0 < stoppingThreshold (real (totalPulls arms))"
    by (rule stoppingThreshold_pos) simp
  ultimately show False by simp
qed

lemma ln2_bounds: "1 / 2 \<le> ln (2::real)" "ln (2::real) \<le> 1"
  using ln_bounds [of "2::real"] by simp_all

lemma stoppingThreshold_le:
  fixes t :: real
  assumes "0 \<le> t" and "t \<le> 5000"
  shows "stoppingThreshold t \<le> 17"
proof -
  have e: "exp 1 \<le> (3::real)" by (rule exp_le)
  have p: "0 < t + exp 1" using assms(1) by (simp add: add_nonneg_pos)
  have "ln (t + exp 1) \<le> t + exp 1 - 1" using p by (rule ln_bounds(2))
  also have "\<dots> \<le> 5002" using assms(2) e by simp
  finally have l: "ln (t + exp 1) \<le> 5002" .
  have a: "0 < ln (t + exp 1) + 1" using assms(1) by (rule threshold_arg_pos)
  have "(ln (t + exp 1) + 1) / DELTA \<le> 2 ^ 17" using l by (simp add: DELTA_def)
  moreover have "0 < (ln (t + exp 1) + 1) / DELTA" using a by (simp add: DELTA_def)
  ultimately have "ln ((ln (t + exp 1) + 1) / DELTA) \<le> ln ((2::real) ^ 17)"
    by (subst ln_le_cancel_iff) simp_all
  also have "\<dots> = 17 * ln 2" using ln_realpow [of "2::real" 17] by simp
  also have "\<dots> \<le> 17" using ln2_bounds(2) by simp
  finally show ?thesis by (simp add: stoppingThreshold_def thresholdAt_def)
qed

lemma ln_billion: "14 \<le> ln ((10::real) ^ 9 - 1)"
proof -
  have "(14::real) \<le> 29 * ln 2" using ln2_bounds(1) by simp
  also have "\<dots> = ln ((2::real) ^ 29)" using ln_realpow [of "2::real" 29] by simp
  also have "\<dots> \<le> ln ((10::real) ^ 9 - 1)"
    by (subst ln_le_cancel_iff) simp_all
  finally show ?thesis .
qed

lemma klBern_extreme: "13 \<le> klBern 1 0" "13 \<le> klBern 0 1"
proof -
  define L where "L = ln (999999999::real)"
  have L: "14 \<le> L" unfolding L_def using ln_billion by simp
  have hi: "max (1 / 10 ^ 9) (min (1 - 1 / 10 ^ 9) (1::real)) = 999999999 / 1000000000"
    and lo: "max (1 / 10 ^ 9) (min (1 - 1 / 10 ^ 9) (0::real)) = 1 / 1000000000"
    by simp_all
  have a: "ln (999999999 / 1000000000 / (1 / 1000000000) :: real) = L"
    unfolding L_def by simp
  have "ln (1 / 999999999 :: real) = - L"
    unfolding L_def using ln_div [of 1 "999999999::real"] by simp
  then have b: "ln (1 / 1000000000 / (999999999 / 1000000000) :: real) = - L"
    and c: "ln ((1 - 999999999 / 1000000000) / (1 - 1 / 1000000000) :: real) = - L"
    by simp_all
  have d: "ln ((1 - 1 / 1000000000) / (1 - 999999999 / 1000000000) :: real) = L"
    unfolding L_def by simp
  have "klBern 1 0 = 999999999 / 1000000000 * L + (1 - 999999999 / 1000000000) * (- L)"
    unfolding klBern_def Let_def hi lo a c by (rule refl)
  then show "13 \<le> klBern 1 0" using L by simp
  have "klBern 0 1 = 1 / 1000000000 * (- L) + (1 - 1 / 1000000000) * L"
    unfolding klBern_def Let_def hi lo b d by (rule refl)
  then show "13 \<le> klBern 0 1" using L by simp
qed

lemma armsAt4:
  "armsAt [c0, c1, c2, c3] =
     [(newArm 0)\<lparr>pulls := fst c0, successes := snd c0\<rparr>,
      (newArm 1)\<lparr>pulls := fst c1, successes := snd c1\<rparr>,
      (newArm 2)\<lparr>pulls := fst c2, successes := snd c2\<rparr>,
      (newArm 3)\<lparr>pulls := fst c3, successes := snd c3\<rparr>]"
  by (cases c0, cases c1, cases c2, cases c3) (simp add: armsAt_def numeral_eq_Suc)

lemma first_max_0:
  assumes "\<forall>j < length arms. mean (arms ! j) \<le> mean (arms ! 0)" and "arms \<noteq> []"
  shows "bestArmIdx arms = 0"
  by (rule bestArmIdx_eqI) (use assms in \<open>simp add: first_max_mean_def\<close>)

lemma best_tied: "bestArmIdx (armsAt [(1250, 625), (1250, 625), (1250, 625), (1250, 625)]) = 0"
  by (rule first_max_0) (simp_all add: armsAt4 mean_def less_Suc_eq)

lemma best_before_cap:
  "bestArmIdx (armsAt [(1250, 625), (1250, 625), (1250, 625), (1249, 624)]) = 0"
  by (rule first_max_0) (simp_all add: armsAt4 mean_def less_Suc_eq)

lemma best_stopped: "bestArmIdx (armsAt [(12, 12), (12, 0), (12, 0), (12, 0)]) = 0"
  by (rule first_max_0) (simp_all add: armsAt4 mean_def less_Suc_eq)

lemma not_stop_tied:
  "\<not> shouldStop (armsAt [(1250, 625), (1250, 625), (1250, 625), (1250, 625)])"
  by (rule shouldStop_tie [of 1]) (simp_all only: best_tied, simp_all add: armsAt4 mean_def)

lemma not_stop_before_cap:
  "\<not> shouldStop (armsAt [(1250, 625), (1250, 625), (1250, 625), (1249, 624)])"
  by (rule shouldStop_tie [of 1]) (simp_all only: best_before_cap, simp_all add: armsAt4 mean_def)

lemma not_stop_before_stop:
  "\<not> shouldStop (armsAt [(12, 12), (12, 0), (12, 0), (11, 0)])"
  by (rule shouldStop_few_pulls [of "(newArm 3)\<lparr>pulls := 11, successes := 0\<rparr>"])
     (simp_all add: armsAt4)

lemma total4: "totalPulls (armsAt [c0, c1, c2, c3]) = fst c0 + fst c1 + fst c2 + fst c3"
  by (simp add: armsAt4 totalPulls_def)

lemma stop_stopped: "shouldStop (armsAt [(12, 12), (12, 0), (12, 0), (12, 0)])"
proof -
  let ?arms = "armsAt [(12, 12), (12, 0), (12, 0), (12, 0)]"
  have t: "stoppingThreshold (real (totalPulls ?arms)) \<le> 17"
    by (rule stoppingThreshold_le) (simp_all add: total4)
  have m: "\<not> minPulls ?arms < 12"
    by (simp add: minPulls_less_numeral armsAt4)
  have g: "glrtStat (?arms ! 0) (?arms ! j) = 12 * klBern 1 0 + 12 * klBern 0 1"
    if "j < length ?arms" and "j \<noteq> 0" for j
    using that by (auto simp: armsAt4 glrtStat_def mean_def less_Suc_eq)
  have "(17::real) \<le> 12 * klBern 1 0 + 12 * klBern 0 1" using klBern_extreme by simp
  with t have "stoppingThreshold (real (totalPulls ?arms)) \<le> 12 * klBern 1 0 + 12 * klBern 0 1"
    by simp
  then show ?thesis
    unfolding shouldStop_iff best_stopped using m g by simp
qed

text \<open>A tick at the example states: the last step before the cap, the step on which the
  stopping rule fires, and a tick of the timer that was restarted at the cap.\<close>

lemma simStep_eq:
  assumes "currentAlloc (simMode s) (sim_arms s) = Some alloc"
    and "selectArm r alloc = int k" and "k < length (sim_arms s)"
    and "(sim_arms s)[k := pull u (sim_arms s ! k)] = arms1"
    and "totalPulls arms1 mod CHART_SAMPLE \<noteq> 0"
  shows "simStep r u s =
           Some (if shouldStop arms1
                 then s\<lparr>sim_arms := arms1, simDone := True,
                        simWinner := Some (bestArmIdx arms1)\<rparr>
                 else s\<lparr>sim_arms := arms1\<rparr>)"
  using assms by (simp add: simStep_def Let_def)

lemma tick_last_step:
  assumes "simTimer s" and "0 < tickSteps s" and "\<not> terminal s"
    and st: "simStep (fst (rnd 0)) (snd (rnd 0)) s = Some s1" and t1: "terminal s1"
    and b: "bestArmIdx (sim_arms s1) < length (sim_arms s1)"
    and w: "simWinner s1 = None \<or> simWinner s1 = Some (bestArmIdx (sim_arms s1))"
  shows "fire (Tick rnd) s =
           Some (s1\<lparr>simRunning := False, simTimer := False,
                    winnerBar := Some (bestArmIdx (sim_arms s1), totalPulls (sim_arms s1)),
                    showCalls := showCalls s1 + 1\<rparr>)"
proof -
  have "runBatch_loop rnd (Suc 0) s1 = Some s1"
    using t1 by (subst runBatch_loop_unfold) simp
  then have l: "runBatch_loop rnd 0 s = Some s1"
    using assms(2,3) st by (subst runBatch_loop_unfold) simp
  let ?s3 = "s1\<lparr>simRunning := False, simTimer := False\<rparr>"
  have w3: "(case simWinner ?s3 of Some w0 \<Rightarrow> w0 | None \<Rightarrow> bestArmIdx (sim_arms ?s3))
               = bestArmIdx (sim_arms s1)"
    using w by auto
  have "showWinner ?s3 =
          Some (?s3\<lparr>winnerBar := Some (bestArmIdx (sim_arms s1), totalPulls (sim_arms s1)),
                    showCalls := showCalls s1 + 1\<rparr>)"
    unfolding showWinner_def w3 Let_def using b by simp
  then show ?thesis
    using l b t1 assms(1) by (simp add: runBatch_def renderSim_def stopSim_def terminal_def)
qed

lemma tick_no_step:
  assumes "simTimer s" and t: "terminal s"
    and b: "bestArmIdx (sim_arms s) < length (sim_arms s)"
    and w: "simWinner s = None \<or> simWinner s = Some (bestArmIdx (sim_arms s))"
  shows "fire (Tick rnd) s =
           Some (s\<lparr>simRunning := False, simTimer := False,
                   winnerBar := Some (bestArmIdx (sim_arms s), totalPulls (sim_arms s)),
                   showCalls := showCalls s + 1\<rparr>)"
proof -
  have l: "runBatch_loop rnd 0 s = Some s"
    using t by (subst runBatch_loop_unfold) simp
  let ?s3 = "s\<lparr>simRunning := False, simTimer := False\<rparr>"
  have w3: "(case simWinner ?s3 of Some w0 \<Rightarrow> w0 | None \<Rightarrow> bestArmIdx (sim_arms ?s3))
               = bestArmIdx (sim_arms s)"
    using w by auto
  have "showWinner ?s3 =
          Some (?s3\<lparr>winnerBar := Some (bestArmIdx (sim_arms s), totalPulls (sim_arms s)),
                    showCalls := showCalls s + 1\<rparr>)"
    unfolding showWinner_def w3 Let_def using b by simp
  then show ?thesis
    using l b t assms(1) by (simp add: runBatch_def renderSim_def stopSim_def terminal_def)
qed

lemma uniform4:
  "currentAlloc Uniform (armsAt [c0, c1, c2, c3]) = Some [1 / 4, 1 / 4, 1 / 4, 1 / 4]"
  by (simp add: currentAlloc_def uniformAlloc_def armsAt4)

lemma select_last: "selectArm (9 / 10) [1 / 4, 1 / 4, 1 / 4, 1 / 4] = int 3"
  by (simp add: selectArm_def)

lemma pull_last:
  "(armsAt [c0, c1, c2, (p, k)])[3 := pull u (armsAt [c0, c1, c2, (p, k)] ! 3)]
     = armsAt [c0, c1, c2, (p + 1, if u < 48 / 100 then k + 1 else k)]"
  by (simp add: armsAt4 pull_def Let_def newArm_def DEFAULT_RATES_def numeral_3_eq_3)

lemma simStep_before_cap:
  "simStep (fst (capDraws 0)) (snd (capDraws 0)) beforeCap
     = Some (beforeCap\<lparr>sim_arms := armsAt [(1250, 625), (1250, 625), (1250, 625), (1250, 625)]\<rparr>)"
proof -
  let ?arms1 = "armsAt [(1250, 625), (1250, 625), (1250, 625), (1250, 625)]"
  have "simStep (9 / 10) (1 / 10) beforeCap =
           Some (if shouldStop ?arms1
                 then beforeCap\<lparr>sim_arms := ?arms1, simDone := True,
                        simWinner := Some (bestArmIdx ?arms1)\<rparr>
                 else beforeCap\<lparr>sim_arms := ?arms1\<rparr>)"
  proof (rule simStep_eq [where k = 3])
    show "currentAlloc (simMode beforeCap) (sim_arms beforeCap) = Some [1 / 4, 1 / 4, 1 / 4, 1 / 4]"
      by (simp add: beforeCap_def uniform4)
    show "selectArm (9 / 10) [1 / 4, 1 / 4, 1 / 4, 1 / 4] = int 3" by (rule select_last)
    show "3 < length (sim_arms beforeCap)" by (simp add: beforeCap_def armsAt4)
    show "(sim_arms beforeCap)[3 := pull (1 / 10) (sim_arms beforeCap ! 3)] = ?arms1"
      by (simp add: beforeCap_def pull_last)
    show "totalPulls ?arms1 mod CHART_SAMPLE \<noteq> 0"
      by (simp add: total4 CHART_SAMPLE_def)
  qed
  then show ?thesis by (simp add: capDraws_def not_stop_tied)
qed

lemma simStep_before_stop:
  "simStep (fst (stopDraws 0)) (snd (stopDraws 0)) beforeStop
     = Some (beforeStop\<lparr>sim_arms := armsAt [(12, 12), (12, 0), (12, 0), (12, 0)],
                        simDone := True, simWinner := Some 0\<rparr>)"
proof -
  let ?arms1 = "armsAt [(12, 12), (12, 0), (12, 0), (12, 0)]"
  have "simStep (9 / 10) (9 / 10) beforeStop =
           Some (if shouldStop ?arms1
                 then beforeStop\<lparr>sim_arms := ?arms1, simDone := True,
                        simWinner := Some (bestArmIdx ?arms1)\<rparr>
                 else beforeStop\<lparr>sim_arms := ?arms1\<rparr>)"
  proof (rule simStep_eq [where k = 3])
    show "currentAlloc (simMode beforeStop) (sim_arms beforeStop) = Some [1 / 4, 1 / 4, 1 / 4, 1 / 4]"
      by (simp add: beforeStop_def uniform4)
    show "selectArm (9 / 10) [1 / 4, 1 / 4, 1 / 4, 1 / 4] = int 3" by (rule select_last)
    show "3 < length (sim_arms beforeStop)" by (simp add: beforeStop_def armsAt4)
    show "(sim_arms beforeStop)[3 := pull (9 / 10) (sim_arms beforeStop ! 3)] = ?arms1"
      by (simp add: beforeStop_def pull_last)
    show "totalPulls ?arms1 mod CHART_SAMPLE \<noteq> 0"
      by (simp add: total4 CHART_SAMPLE_def)
  qed
  then show ?thesis by (simp add: stopDraws_def stop_stopped best_stopped)
qed

lemma driver_inv_before_cap: "driver_inv beforeCap"
proof -
  have a: "sim_arms beforeCap = armsAt [(1250, 625), (1250, 625), (1250, 625), (1249, 624)]"
    by (simp add: beforeCap_def)
  have t: "totalPulls (sim_arms beforeCap) = 4999" unfolding a by (simp add: total4)
  have ne: "sim_arms beforeCap \<noteq> []" unfolding a by (simp add: armsAt4)
  have ns: "\<not> shouldStop (sim_arms beforeCap)" unfolding a by (rule not_stop_before_cap)
  show ?thesis
    by (simp add: driver_inv_def terminal_def t ne ns MAX_STEPS_def) (simp add: beforeCap_def)
qed

lemma driver_inv_before_stop: "driver_inv beforeStop"
proof -
  have a: "sim_arms beforeStop = armsAt [(12, 12), (12, 0), (12, 0), (11, 0)]"
    by (simp add: beforeStop_def)
  have t: "totalPulls (sim_arms beforeStop) = 47" unfolding a by (simp add: total4)
  have ne: "sim_arms beforeStop \<noteq> []" unfolding a by (simp add: armsAt4)
  have ns: "\<not> shouldStop (sim_arms beforeStop)" unfolding a by (rule not_stop_before_stop)
  show ?thesis
    by (simp add: driver_inv_def terminal_def t ne ns MAX_STEPS_def) (simp add: beforeStop_def)
qed

lemma fire_before_cap: "fire (Tick capDraws) beforeCap = Some (capped False 1)"
proof -
  let ?s1 = "beforeCap\<lparr>sim_arms := armsAt [(1250, 625), (1250, 625), (1250, 625), (1250, 625)]\<rparr>"
  have "fire (Tick capDraws) beforeCap =
           Some (?s1\<lparr>simRunning := False, simTimer := False,
                    winnerBar := Some (bestArmIdx (sim_arms ?s1), totalPulls (sim_arms ?s1)),
                    showCalls := showCalls ?s1 + 1\<rparr>)"
  proof (rule tick_last_step)
    show "simStep (fst (capDraws 0)) (snd (capDraws 0)) beforeCap = Some ?s1"
      by (rule simStep_before_cap)
    show "terminal ?s1" by (simp add: terminal_def total4 MAX_STEPS_def)
    show "\<not> terminal beforeCap"
      by (simp add: terminal_def beforeCap_def total4 MAX_STEPS_def)
    show "bestArmIdx (sim_arms ?s1) < length (sim_arms ?s1)"
      by (simp add: best_tied) (simp add: armsAt4)
  qed (simp_all add: beforeCap_def tickSteps_def)
  then show ?thesis
    by (simp add: best_tied total4) (simp add: beforeCap_def capped_def)
qed

lemma fire_before_stop: "fire (Tick stopDraws) beforeStop = Some stopped"
proof -
  let ?s1 = "beforeStop\<lparr>sim_arms := armsAt [(12, 12), (12, 0), (12, 0), (12, 0)],
                        simDone := True, simWinner := Some 0\<rparr>"
  have "fire (Tick stopDraws) beforeStop =
           Some (?s1\<lparr>simRunning := False, simTimer := False,
                    winnerBar := Some (bestArmIdx (sim_arms ?s1), totalPulls (sim_arms ?s1)),
                    showCalls := showCalls ?s1 + 1\<rparr>)"
  proof (rule tick_last_step)
    show "simStep (fst (stopDraws 0)) (snd (stopDraws 0)) beforeStop = Some ?s1"
      by (rule simStep_before_stop)
    show "terminal ?s1" by (simp add: terminal_def)
    show "\<not> terminal beforeStop"
      by (simp add: terminal_def beforeStop_def total4 MAX_STEPS_def)
    show "bestArmIdx (sim_arms ?s1) < length (sim_arms ?s1)"
      by (simp add: best_stopped) (simp add: armsAt4)
    show "simWinner ?s1 = None \<or> simWinner ?s1 = Some (bestArmIdx (sim_arms ?s1))"
      by (simp add: best_stopped)
  qed (simp_all add: beforeStop_def tickSteps_def)
  then show ?thesis
    by (simp add: best_stopped total4) (simp add: beforeStop_def stopped_def)
qed

lemma fire_play_capped: "fire TogglePlay (capped False n) = Some (capped True n)"
  by (simp add: togglePlay_def capped_def startSim_def)

lemma fire_tick_capped: "fire (Tick rnd) (capped True n) = Some (capped False (n + 1))"
proof -
  let ?s = "capped True n"
  have a: "sim_arms ?s = armsAt [(1250, 625), (1250, 625), (1250, 625), (1250, 625)]"
    by (simp add: capped_def)
  have "fire (Tick rnd) ?s =
           Some (?s\<lparr>simRunning := False, simTimer := False,
                   winnerBar := Some (bestArmIdx (sim_arms ?s), totalPulls (sim_arms ?s)),
                   showCalls := showCalls ?s + 1\<rparr>)"
  proof (rule tick_no_step)
    show "simTimer ?s" by (simp add: capped_def)
    show "terminal ?s" unfolding terminal_def a by (simp add: total4 MAX_STEPS_def)
    show "bestArmIdx (sim_arms ?s) < length (sim_arms ?s)"
      unfolding a best_tied by (simp add: armsAt4)
    show "simWinner ?s = None \<or> simWinner ?s = Some (bestArmIdx (sim_arms ?s))"
      by (simp add: capped_def)
  qed
  then show ?thesis
    unfolding a best_tied by (simp add: total4) (simp add: capped_def)
qed

text \<open>
  Claim C4, as amended. The terminal outcome of a run is what \<^verbatim>\<open>showWinner\<close> writes to the winner
  bar, the pair of the winner index and the total number of pulls. From every state that
  satisfies the invariant of the driver (every state the script reaches does), every event
  is handled without exception, except \<^verbatim>\<open>setRate\<close> with an index that is out of range, and
  in the state after the event:
  \<^item> the state is terminal exactly when \<^verbatim>\<open>shouldStop\<close> holds of the arms or their total
    number of pulls has reached \<open>MAX_STEPS\<close>, and \<open>simDone\<close> is set exactly when \<^verbatim>\<open>shouldStop\<close>
    holds of the arms;
  \<^item> a state becomes terminal only by a timer tick; that tick produces the outcome, which
    had not been produced since the last reset, with the current best arm and the total
    number of pulls, and stops the run and its timer, in both cases;
  \<^item> from a terminal state, every event that does not reset leaves the state terminal and
    leaves the pull and success counts, the outcome and the winner bar unchanged: no
    further step executes and the outcome stays the one that was produced;
  \<^item> when the stopping rule has fired, the winner index is captured in \<open>simWinner\<close> and the
    outcome has been produced exactly once since the last reset;
  \<^item> a reset hides the winner bar and returns all counts to zero;
  \<^item> a tick of the active timer makes \<open>k\<close> calls of \<^verbatim>\<open>simStep\<close>, each pulling one arm, where
    \<open>k\<close> is at most the number of steps of a batch, no state before the \<open>k\<close>-th call
    satisfies the stopping rule or the cap, and if \<open>k\<close> is less than the number of steps
    of a batch the state after the \<open>k\<close>-th call does.

  At the cap alone \<open>simDone\<close> and \<open>simWinner\<close> stay unset, and \<^verbatim>\<open>showWinner\<close> computes the
  winner index when it displays the outcome. The number of steps of a batch is \<open>0\<close> after
  \<^verbatim>\<open>setSpeed\<close> has stored a value that is not a number.
\<close>

theorem driver_terminal_outcome:
  assumes "driver_inv s"
  shows "case fire e s of
           None \<Rightarrow> (\<exists>i v. e = SetRate i v \<and> length (sim_arms s) \<le> i)
         | Some s' \<Rightarrow>
             driver_inv s'
             \<and> (terminal s' \<longleftrightarrow>
                  shouldStop (sim_arms s') \<or> MAX_STEPS \<le> totalPulls (sim_arms s'))
             \<and> (simDone s' \<longleftrightarrow> shouldStop (sim_arms s'))
             \<and> (\<not> terminal s \<and> terminal s' \<longrightarrow>
                  is_tick e \<and> winnerBar s = None \<and> showCalls s = 0
                  \<and> winnerBar s' = Some (outcome s') \<and> showCalls s' = 1
                  \<and> \<not> simRunning s' \<and> \<not> simTimer s')
             \<and> (terminal s \<and> \<not> is_reset e s \<longrightarrow>
                  terminal s' \<and> counts s' = counts s \<and> outcome s' = outcome s
                  \<and> winnerBar s' = winnerBar s)
             \<and> (simDone s' \<longrightarrow>
                  simWinner s' = Some (bestArmIdx (sim_arms s')) \<and> showCalls s' = 1)
             \<and> (is_reset e s \<longrightarrow>
                  \<not> terminal s' \<and> winnerBar s' = None \<and> showCalls s' = 0
                  \<and> totalPulls (sim_arms s') = 0)
             \<and> (\<forall>rnd. e = Tick rnd \<and> simTimer s \<longrightarrow> (\<exists>k. tick_steps_to rnd s s' k))"
proof (cases "fire e s")
  case None
  with fire_ok [OF assms, of e] show ?thesis by simp
next
  case (Some s')
  with fire_ok [OF assms, of e] have "step_ok e s s'" by simp
  then show ?thesis
    unfolding Some option.case step_ok_def stop_or_cap_def by blast
qed

theorem driver_terminal_outcome_witness:
  "driver_inv beforeStop \<and> \<not> terminal beforeStop
   \<and> fire (Tick stopDraws) beforeStop = Some stopped
   \<and> shouldStop (sim_arms stopped) \<and> terminal stopped \<and> simDone stopped
   \<and> winnerBar stopped = Some (outcome stopped) \<and> showCalls stopped = 1
   \<and> simWinner stopped = Some (bestArmIdx (sim_arms stopped))
   \<and> \<not> simTimer stopped
   \<and> (\<exists>k. tick_steps_to stopDraws beforeStop stopped k)
   \<and> (\<exists>s'. fire TogglePlay stopped = Some s' \<and> \<not> terminal s' \<and> winnerBar s' = None
            \<and> showCalls s' = 0 \<and> totalPulls (sim_arms s') = 0)
   \<and> driver_inv beforeCap \<and> \<not> terminal beforeCap
   \<and> fire (Tick capDraws) beforeCap = Some (capped False 1)
   \<and> \<not> shouldStop (sim_arms (capped False 1))
   \<and> MAX_STEPS \<le> totalPulls (sim_arms (capped False 1))
   \<and> terminal (capped False 1)
   \<and> winnerBar (capped False 1) = Some (outcome (capped False 1))
   \<and> showCalls (capped False 1) = 1
   \<and> fire TogglePlay (capped False 1) = Some (capped True 1)
   \<and> terminal (capped True 1)
   \<and> counts (capped True 1) = counts (capped False 1)
   \<and> winnerBar (capped True 1) = winnerBar (capped False 1)"
proof -
  have nt: "\<not> terminal beforeStop"
    by (simp add: terminal_def beforeStop_def total4 MAX_STEPS_def)
  have ss: "shouldStop (sim_arms stopped)" by (simp add: stopped_def stop_stopped)
  have tm: "simTimer beforeStop" by (simp add: beforeStop_def)
  have a: "driver_inv stopped"
    and a2: "terminal stopped \<longleftrightarrow>
               shouldStop (sim_arms stopped) \<or> MAX_STEPS \<le> totalPulls (sim_arms stopped)"
    and a3: "simDone stopped \<longleftrightarrow> shouldStop (sim_arms stopped)"
    and a4: "\<not> terminal beforeStop \<and> terminal stopped \<longrightarrow>
               winnerBar stopped = Some (outcome stopped) \<and> showCalls stopped = 1
               \<and> \<not> simTimer stopped"
    and a5: "simDone stopped \<longrightarrow> simWinner stopped = Some (bestArmIdx (sim_arms stopped))"
    and a6: "simTimer beforeStop \<longrightarrow> (\<exists>k. tick_steps_to stopDraws beforeStop stopped k)"
    using driver_terminal_outcome [OF driver_inv_before_stop, of "Tick stopDraws"]
    unfolding fire_before_stop option.case by blast+
  have ts: "terminal stopped" using a2 ss by blast
  have sd: "simDone stopped" using a3 ss by blast
  have r: "is_reset TogglePlay stopped" using sd by simp
  have b: "\<exists>s'. fire TogglePlay stopped = Some s' \<and> \<not> terminal s' \<and> winnerBar s' = None
            \<and> showCalls s' = 0 \<and> totalPulls (sim_arms s') = 0"
  proof (cases "fire TogglePlay stopped")
    case None
    with driver_terminal_outcome [OF a, of TogglePlay] show ?thesis by simp
  next
    case (Some s')
    have "is_reset TogglePlay stopped \<longrightarrow>
            \<not> terminal s' \<and> winnerBar s' = None \<and> showCalls s' = 0
            \<and> totalPulls (sim_arms s') = 0"
      using driver_terminal_outcome [OF a, of TogglePlay]
      unfolding Some option.case by blast
    with r Some show ?thesis by blast
  qed
  have ntc: "\<not> terminal beforeCap"
    by (simp add: terminal_def beforeCap_def total4 MAX_STEPS_def)
  have cp: "MAX_STEPS \<le> totalPulls (sim_arms (capped False 1))"
    by (simp add: capped_def total4 MAX_STEPS_def)
  have ns: "\<not> shouldStop (sim_arms (capped False 1))"
    by (simp add: capped_def not_stop_tied)
  have c: "driver_inv (capped False 1)"
    and c2: "terminal (capped False 1) \<longleftrightarrow>
               shouldStop (sim_arms (capped False 1))
               \<or> MAX_STEPS \<le> totalPulls (sim_arms (capped False 1))"
    and c3: "simDone (capped False 1) \<longleftrightarrow> shouldStop (sim_arms (capped False 1))"
    and c4: "\<not> terminal beforeCap \<and> terminal (capped False 1) \<longrightarrow>
               winnerBar (capped False 1) = Some (outcome (capped False 1))
               \<and> showCalls (capped False 1) = 1"
    using driver_terminal_outcome [OF driver_inv_before_cap, of "Tick capDraws"]
    unfolding fire_before_cap option.case by blast+
  have tc: "terminal (capped False 1)" using c2 cp by blast
  have nr: "\<not> is_reset TogglePlay (capped False 1)" using c3 ns by simp
  have d: "terminal (capped False 1) \<and> \<not> is_reset TogglePlay (capped False 1) \<longrightarrow>
             terminal (capped True 1) \<and> counts (capped True 1) = counts (capped False 1)
             \<and> winnerBar (capped True 1) = winnerBar (capped False 1)"
    using driver_terminal_outcome [OF c, of TogglePlay]
    unfolding fire_play_capped option.case by blast
  show ?thesis
    using driver_inv_before_stop nt fire_before_stop ss ts sd a4 a5 a6 tm b
      driver_inv_before_cap ntc fire_before_cap ns cp tc c4 fire_play_capped d nr
    by blast
qed

text \<open>
  Claim C4 as stated, at the step cap: the tick that brings the total number of pulls to
  \<open>MAX_STEPS\<close> with two arms tied for the best mean, so that the stopping rule does not hold,
  displays the outcome and stops the timer, but captures no winner index: \<open>simWinner\<close>
  stays unset, as does \<open>simDone\<close>. \<^verbatim>\<open>togglePlay\<close> therefore restarts the timer instead of
  resetting, and the next tick, which makes no step, produces the outcome a second time
  before any reset. The invariant does not constrain \<open>allocHistory\<close>, which no condition of
  the driver reads.
\<close>

theorem driver_cap_outcome_counterexample:
  "driver_inv beforeCap
   \<and> fire (Tick capDraws) beforeCap = Some (capped False 1)
   \<and> MAX_STEPS \<le> totalPulls (sim_arms (capped False 1))
   \<and> simWinner (capped False 1) \<noteq> Some (bestArmIdx (sim_arms (capped False 1)))
   \<and> fire TogglePlay (capped False 1) = Some (capped True 1)
   \<and> fire (Tick capDraws) (capped True 1) = Some (capped False 2)
   \<and> showCalls (capped False 2) \<noteq> 1"
proof -
  have "MAX_STEPS \<le> totalPulls (sim_arms (capped False 1))"
    by (simp add: capped_def total4 MAX_STEPS_def)
  moreover have "simWinner (capped False 1) \<noteq> Some (bestArmIdx (sim_arms (capped False 1)))"
    by (simp add: capped_def)
  moreover have "fire (Tick capDraws) (capped True 1) = Some (capped False 2)"
    using fire_tick_capped [of capDraws 1] unfolding one_add_one .
  moreover have "showCalls (capped False 2) \<noteq> 1" by (simp add: capped_def)
  ultimately show ?thesis
    using driver_inv_before_cap fire_before_cap fire_play_capped [of 1] by blast
qed

end
